theory Spec2Isabelle
  imports Complex_Main "HOL-Library.Char_ord" "HOL-Library.List_Lexorder"
begin

section \<open>JavaScript values\<close>

text \<open>
  The data that flows through the consolidation is JSON: the per-source records are read
  with \<^verbatim>\<open>JSON.parse\<close> and the override file likewise. A number is a finite IEEE 754
  double, modelled by its value, a rational; the arithmetic on numbers rounds (see
  \<open>round_double\<close> below). Strings are character lists compared by
  character code, as \<^verbatim>\<open>Array.prototype.sort\<close> does without a comparator. The only
  arrays the parsers put into a condition value are arrays of strings (\<open>JStrs\<close>).
  An object is the list of its own properties in insertion order; its keys are distinct.
\<close>

datatype json =
    JNull
  | JBool bool
  | JNum rat
  | JStr string
  | JStrs "string list"
  | JObj "(string \<times> json) list"

type_synonym 'a obj = "(string \<times> 'a) list"

text \<open>
  The arithmetic of the code is that of doubles: the result of \<^verbatim>\<open>a / b\<close> and of
  \<^verbatim>\<open>a - b\<close> is the exact result rounded to the nearest double, to the one with the even
  significand when two are equally near. \<open>round_double x\<close> is that double: with
  \<open>e\<close> the exponent of \<open>x\<close> (\<open>2 ^ e \<le> \<bar>x\<bar> < 2 ^ (e + 1)\<close>, and not below
  \<open>- 1022\<close>, where the subnormal numbers begin), the doubles around \<open>x\<close> are the
  multiples of \<open>2 ^ (e - 52)\<close>. A decimal literal of the source or of a JSON file, such
  as \<^verbatim>\<open>0.0001\<close>, denotes the double nearest to it. The results that the program stores
  are quotients by 100, which are finite; a difference is only compared with the
  threshold, so that an overflow to \<^verbatim>\<open>Infinity\<close> (not modelled) compares as the value
  itself.
\<close>

definition round_half_even :: "rat \<Rightarrow> int" where
  "round_half_even x =
     (let f = \<lfloor>x\<rfloor>; r = x - of_int f
      in if r < 1 / 2 then f else if 1 / 2 < r then f + 1 else if even f then f else f + 1)"

text \<open>The number of binary digits of a positive integer.\<close>

function bit_length :: "int \<Rightarrow> int" where
  "bit_length n = (if n \<le> 0 then 0 else 1 + bit_length (n div 2))"
  by pat_completeness auto
termination
  by (relation "measure nat") auto

declare bit_length.simps [simp del]

definition binary_exponent :: "rat \<Rightarrow> int" where
  "binary_exponent x =
     (if 1 \<le> \<bar>x\<bar> then bit_length \<lfloor>\<bar>x\<bar>\<rfloor> - 1
      else - bit_length (\<lceil>1 / \<bar>x\<bar>\<rceil> - 1))"

definition round_double :: "rat \<Rightarrow> rat" where
  "round_double x =
     (let ulp = 2 powi (max (binary_exponent x) (- 1022) - 52)
      in of_int (round_half_even (x / ulp)) * ulp)"

text \<open>\<^verbatim>\<open>a / b\<close> and \<^verbatim>\<open>a - b\<close> on numbers.\<close>

definition fdiv :: "rat \<Rightarrow> rat \<Rightarrow> rat" where
  "fdiv a b = round_double (a / b)"

definition fsub :: "rat \<Rightarrow> rat \<Rightarrow> rat" where
  "fsub a b = round_double (a - b)"

text \<open>The truthiness test behind \<^verbatim>\<open>if (x)\<close>, \<^verbatim>\<open>!x\<close> and \<^verbatim>\<open>a || b\<close>.\<close>

fun truthy :: "json \<Rightarrow> bool" where
  "truthy JNull = False"
| "truthy (JBool b) = b"
| "truthy (JNum r) = (r \<noteq> 0)"
| "truthy (JStr s) = (s \<noteq> [])"
| "truthy (JStrs xs) = True"
| "truthy (JObj kvs) = True"

text \<open>
  \<^verbatim>\<open>o[k] = v\<close> on an object and \<^verbatim>\<open>m.set(k, v)\<close> on a \<^verbatim>\<open>Map\<close>: an existing key keeps
  its position, a new key goes last. Reading is \<^const>\<open>map_of\<close>.
\<close>

fun obj_set :: "'k \<Rightarrow> 'v \<Rightarrow> ('k \<times> 'v) list \<Rightarrow> ('k \<times> 'v) list" where
  "obj_set k v [] = [(k, v)]"
| "obj_set k v (kv # kvs) = (if fst kv = k then (k, v) # kvs else kv # obj_set k v kvs)"

text \<open>\<^verbatim>\<open>xs.join(sep)\<close> on an array of strings.\<close>

fun join :: "string \<Rightarrow> string list \<Rightarrow> string" where
  "join sep [] = []"
| "join sep [x] = x"
| "join sep (x # y # ys) = x @ sep @ join sep (y # ys)"

text \<open>
  \<^verbatim>\<open>xs.sort(cmp)\<close> with a comparator: a stable sort, here by insertion. The comparator of
  the code is built from \<^verbatim>\<open>String.prototype.localeCompare\<close>, whose order depends on the
  host's locale; it is a parameter \<open>lc\<close> of the model.
\<close>

fun insert_by :: "('a \<Rightarrow> 'a \<Rightarrow> int) \<Rightarrow> 'a \<Rightarrow> 'a list \<Rightarrow> 'a list" where
  "insert_by cmp x [] = [x]"
| "insert_by cmp x (y # ys) = (if cmp x y \<le> 0 then x # y # ys else y # insert_by cmp x ys)"

definition sort_by :: "('a \<Rightarrow> 'a \<Rightarrow> int) \<Rightarrow> 'a list \<Rightarrow> 'a list" where
  "sort_by cmp xs = foldr (insert_by cmp) xs []"

text \<open>A comparator for concrete runs: comparison by character code.\<close>

definition code_unit_compare :: "string \<Rightarrow> string \<Rightarrow> int" where
  "code_unit_compare a b = (if a < b then - 1 else if a = b then 0 else 1)"


section \<open>Data model of the mutation files\<close>

text \<open>
  A child entry \<^verbatim>\<open>{chance, requirements?}\<close>, a group \<^verbatim>\<open>{parents: [a, b], children}\<close>
  and an extracted mutation \<^verbatim>\<open>{parent1, parent2, offspring, chance, conditions?}\<close>.
  A missing \<^verbatim>\<open>requirements\<close> property, and a \<^verbatim>\<open>null\<close> identifier, is \<open>None\<close>.
\<close>

record child =
  chance :: rat
  requirements :: "json obj list option"

record bgroup =
  parents :: "string \<times> string"
  children :: "child obj"

record mutation =
  parent1 :: "string option"
  parent2 :: "string option"
  offspring :: "string option"
  mchance :: rat
  conditions :: "json obj option"

datatype skip = Skip (skipped_offspring: "string option") (inManual: bool)

datatype error = TypeError

text \<open>\<^verbatim>\<open>[a, b].sort()\<close> on a two-element array of strings.\<close>

definition sort_pair :: "string \<times> string \<Rightarrow> string \<times> string" where
  "sort_pair p = (if snd p < fst p then (snd p, fst p) else p)"

text \<open>
  The keys of the two \<^verbatim>\<open>Set\<close>s are template strings
  \<^verbatim>\<open>`${parentKey}|${species}|${chance}`\<close>, the second one followed by the serialized
  conditions. They are modelled by the tuple of the interpolated parts: the sorted parent
  pair stands for \<^verbatim>\<open>sort().join("|")\<close>, the number for its decimal text. Identifiers are
  \<^verbatim>\<open>mod:name\<close> keys and contain no \<^verbatim>\<open>|\<close>, so two strings are equal exactly when the
  tuples are, and \<^verbatim>\<open>key.split("|")[2]\<close> is the species.
\<close>

type_synonym pkey = "string \<times> string"

type_synonym base_key = "pkey \<times> string \<times> json"

datatype cpart = CJoined string string | CJson string json

type_synonym mutation_key = "pkey \<times> string \<times> rat \<times> cpart list"

definition requirements_or_empty :: "child \<Rightarrow> json obj list" where
  "requirements_or_empty cd = (case requirements cd of None \<Rightarrow> [] | Some rs \<Rightarrow> rs)"


section \<open>buildBreedingPairsJsonc: the index of the manual mutations\<close>

definition requirement_chance :: "child \<Rightarrow> json obj \<Rightarrow> json" where
  "requirement_chance cd requirement =
     (case map_of requirement ''chance'' of
        None \<Rightarrow> JNum (chance cd)
      | Some v \<Rightarrow> if truthy v then v else JNum (chance cd))"

definition child_keys :: "pkey \<Rightarrow> string \<times> child \<Rightarrow> base_key list" where
  "child_keys parentKey sc =
     map (\<lambda>requirement. (parentKey, fst sc, requirement_chance (snd sc) requirement))
       (requirements_or_empty (snd sc))"

definition manualMutationSet :: "bgroup list \<Rightarrow> base_key list" where
  "manualMutationSet manualMutations =
     concat (map (\<lambda>g. concat (map (child_keys (sort_pair (parents g))) (children g)))
       manualMutations)"

text \<open>
  The \<^verbatim>\<open>Map\<close> of groups starts with a deep copy of every manual group under its sorted
  parent key; a later manual group with the same key replaces the earlier copy.
\<close>

definition seedGroups :: "bgroup list \<Rightarrow> (pkey \<times> bgroup) list" where
  "seedGroups manualMutations =
     foldl (\<lambda>m g. obj_set (sort_pair (parents g))
                    \<lparr>parents = sort_pair (parents g), children = children g\<rparr> m)
       [] manualMutations"


section \<open>buildBreedingPairsJsonc: one extracted mutation\<close>

fun serialize_value :: "string \<Rightarrow> json \<Rightarrow> cpart" where
  "serialize_value k (JStrs xs) = CJoined k (join '','' (sort xs))"
| "serialize_value k v = CJson k v"

definition serializeConditions :: "json obj option \<Rightarrow> cpart list" where
  "serializeConditions c =
     (case c of
        None \<Rightarrow> []
      | Some kvs \<Rightarrow> map (\<lambda>kv. serialize_value (fst kv) (snd kv)) (sort_key fst kvs))"

definition copy_if :: "json obj \<Rightarrow> string \<Rightarrow> json obj" where
  "copy_if cs k =
     (case map_of cs k of None \<Rightarrow> [] | Some v \<Rightarrow> if truthy v then [(k, v)] else [])"

definition flag_if :: "json obj \<Rightarrow> string \<Rightarrow> json obj" where
  "flag_if cs k =
     (case map_of cs k of None \<Rightarrow> [] | Some v \<Rightarrow> if truthy v then [(k, JBool True)] else [])"

definition block_field :: "json obj \<Rightarrow> json obj" where
  "block_field cs =
     (if copy_if cs ''block'' \<noteq> [] then copy_if cs ''block''
      else map (\<lambda>kv. (''block'', snd kv)) (copy_if cs ''requiredBlock''))"

text \<open>The condition part of \<^verbatim>\<open>mutationEntry\<close>, in the order the code assigns the fields.\<close>

definition condition_fields :: "json obj option \<Rightarrow> json obj" where
  "condition_fields c =
     (case c of
        None \<Rightarrow> []
      | Some cs \<Rightarrow>
          if cs = [] then []
          else copy_if cs ''temperature'' @ copy_if cs ''humidity'' @ copy_if cs ''biome''
             @ copy_if cs ''dateRange'' @ copy_if cs ''timeOfDay'' @ block_field cs
             @ copy_if cs ''moonPhase'' @ copy_if cs ''moonPhaseBonus''
             @ copy_if cs ''thaumcraftVis'' @ flag_if cs ''requireExplosion''
             @ copy_if cs ''requirePlayer'' @ copy_if cs ''dimension''
             @ flag_if cs ''isSecret'')"

text \<open>
  Lines 420 to 424: \<^verbatim>\<open>Math.abs(mutation.chance / 100 - defaultChance) > 0.0001\<close>, with
  the rounded difference and the double that the literal denotes.
\<close>

definition chance_field :: "rat \<Rightarrow> rat \<Rightarrow> json obj" where
  "chance_field c defaultChance =
     (if \<bar>fsub c defaultChance\<bar> > round_double (1 / 10000) then [(''chance'', JNum c)] else [])"

text \<open>
  Lines 338 to 429: get or create the offspring entry, build \<^verbatim>\<open>mutationEntry\<close>, push it
  when it has a property. The push is on \<^verbatim>\<open>group.children[offspring].requirements\<close>: on
  an entry without that property it raises a \<^verbatim>\<open>TypeError\<close>.
\<close>

definition addMutationEntry :: "bgroup \<Rightarrow> string \<Rightarrow> rat \<Rightarrow> json obj option \<Rightarrow> error + bgroup" where
  "addMutationEntry g off c conds =
     (let cs = (case map_of (children g) off of
                  None \<Rightarrow> children g @ [(off, \<lparr>chance = c, requirements = Some []\<rparr>)]
                | Some cd \<Rightarrow> children g);
          cd = (case map_of (children g) off of
                  None \<Rightarrow> \<lparr>chance = c, requirements = Some []\<rparr>
                | Some cd \<Rightarrow> cd);
          mutationEntry = condition_fields conds @ chance_field c (chance cd)
      in if mutationEntry = [] then Inr (g\<lparr>children := cs\<rparr>)
         else (case requirements cd of
                 None \<Rightarrow> Inl TypeError
               | Some rs \<Rightarrow>
                   Inr (g\<lparr>children := obj_set off (cd\<lparr>requirements := Some (rs @ [mutationEntry])\<rparr>) cs\<rparr>)))"

record cstate =
  mutationGroups :: "(pkey \<times> bgroup) list"
  seenMutationKeys :: "mutation_key list"
  skippedMutations :: "skip list"

definition ascii_lower :: "char \<Rightarrow> char" where
  "ascii_lower c =
     (case map_of (zip ''ABCDEFGHIJKLMNOPQRSTUVWXYZ'' ''abcdefghijklmnopqrstuvwxyz'') c of
        None \<Rightarrow> c
      | Some d \<Rightarrow> d)"

definition toLowerCase :: "string \<Rightarrow> string" where
  "toLowerCase s = map ascii_lower s"

definition is_space :: "char \<Rightarrow> bool" where
  "is_space c = (c \<in> set [CHR '' '', CHR 0x09, CHR 0x0A, CHR 0x0B, CHR 0x0C, CHR 0x0D])"

text \<open>
  \<^verbatim>\<open>tryResolve\<close> of \<^verbatim>\<open>checkIfInManualMutations\<close>: the first two \<^verbatim>\<open>:\<close>-separated parts,
  lowercased, the name without underscores and white space.
\<close>

definition tryResolve :: "string option \<Rightarrow> string option" where
  "tryResolve identifier =
     (case identifier of
        None \<Rightarrow> None
      | Some s \<Rightarrow>
          if s = [] then None
          else if CHR '':'' \<in> set s then
            Some (toLowerCase (takeWhile (\<lambda>c. c \<noteq> CHR '':'') s) @ '':'' @
                  filter (\<lambda>c. c \<noteq> CHR ''_'' \<and> \<not> is_space c)
                    (toLowerCase (takeWhile (\<lambda>c. c \<noteq> CHR '':'')
                       (tl (dropWhile (\<lambda>c. c \<noteq> CHR '':'') s)))))
          else None)"

definition checkIfInManualMutations :: "mutation \<Rightarrow> base_key list \<Rightarrow> bool" where
  "checkIfInManualMutations m manualSet =
     (case tryResolve (offspring m) of
        None \<Rightarrow> False
      | Some off \<Rightarrow> list_ex (\<lambda>key. fst (snd key) = off) manualSet)"

definition skip_with :: "cstate \<Rightarrow> mutation \<Rightarrow> bool \<Rightarrow> cstate" where
  "skip_with st m b = st\<lparr>skippedMutations := skippedMutations st @ [Skip (offspring m) b]\<rparr>"

definition group_or_new :: "(pkey \<times> bgroup) list \<Rightarrow> pkey \<Rightarrow> bgroup" where
  "group_or_new gs parentKey =
     (case map_of gs parentKey of
        None \<Rightarrow> \<lparr>parents = parentKey, children = []\<rparr>
      | Some g \<Rightarrow> g)"

text \<open>Lines 299 to 429, for identifiers that are all present in the bees map.\<close>

definition mergeMutation :: "base_key list \<Rightarrow> cstate \<Rightarrow> mutation \<Rightarrow> string \<Rightarrow> string \<Rightarrow> string \<Rightarrow> error + cstate" where
  "mergeMutation manualSet st m p1 p2 off =
     (let parentKey = sort_pair (p1, p2);
          c = fdiv (mchance m) 100;
          mutationKey = (parentKey, off, c, serializeConditions (conditions m));
          baseKey = (parentKey, off, JNum c)
      in if baseKey \<in> set manualSet then Inr (skip_with st m True)
         else if mutationKey \<in> set (seenMutationKeys st) then Inr st
         else (case addMutationEntry (group_or_new (mutationGroups st) parentKey) off c (conditions m) of
                 Inl e \<Rightarrow> Inl e
               | Inr g \<Rightarrow>
                   Inr (st\<lparr>mutationGroups := obj_set parentKey g (mutationGroups st),
                           seenMutationKeys := mutationKey # seenMutationKeys st\<rparr>)))"

definition present :: "string option \<Rightarrow> string option" where
  "present x = (case x of None \<Rightarrow> None | Some s \<Rightarrow> if s = [] then None else Some s)"

text \<open>
  The body of \<^verbatim>\<open>merged.mutations.forEach\<close>; \<open>bees\<close> is the key set of \<^verbatim>\<open>merged.bees\<close>
  (the identifiers are \<^verbatim>\<open>mod:name\<close> strings, none of them a property that every object
  inherits). An identifier that is \<^verbatim>\<open>null\<close>, missing or empty fails the first test.
\<close>

definition processMutation :: "string set \<Rightarrow> base_key list \<Rightarrow> cstate \<Rightarrow> mutation \<Rightarrow> error + cstate" where
  "processMutation bees manualSet st m =
     (case present (parent1 m) of
        None \<Rightarrow> Inr (skip_with st m False)
      | Some p1 \<Rightarrow>
     (case present (parent2 m) of
        None \<Rightarrow> Inr (skip_with st m False)
      | Some p2 \<Rightarrow>
     (case present (offspring m) of
        None \<Rightarrow> Inr (skip_with st m False)
      | Some off \<Rightarrow>
          if p1 \<in> bees \<and> p2 \<in> bees \<and> off \<in> bees
          then mergeMutation manualSet st m p1 p2 off
          else Inr (skip_with st m (checkIfInManualMutations m manualSet)))))"

fun processMutations :: "string set \<Rightarrow> base_key list \<Rightarrow> cstate \<Rightarrow> mutation list \<Rightarrow> error + cstate" where
  "processMutations bees manualSet st [] = Inr st"
| "processMutations bees manualSet st (m # ms) =
     (case processMutation bees manualSet st m of
        Inl e \<Rightarrow> Inl e
      | Inr st' \<Rightarrow> processMutations bees manualSet st' ms)"


section \<open>buildBreedingPairsJsonc: merging back and the output\<close>

text \<open>
  Lines 433 to 465. A requirement of the working copy is added to the manual group's
  entry unless \<^verbatim>\<open>JSON.stringify\<close> gives the same text for it and an existing one, that
  is, unless the two are the same value, property order included.
\<close>

definition mergeRequirement :: "child \<Rightarrow> json obj \<Rightarrow> child" where
  "mergeRequirement existing newRequirement =
     (if newRequirement \<in> set (requirements_or_empty existing) then existing
      else existing\<lparr>requirements := Some (requirements_or_empty existing @ [newRequirement])\<rparr>)"

definition mergeChild :: "child obj \<Rightarrow> string \<times> child \<Rightarrow> child obj" where
  "mergeChild cs sc =
     (case map_of cs (fst sc) of
        None \<Rightarrow>
          if requirements (snd sc) = Some []
          then cs @ [(fst sc, \<lparr>chance = chance (snd sc), requirements = None\<rparr>)]
          else cs @ [sc]
      | Some existing \<Rightarrow>
          obj_set (fst sc) (foldl mergeRequirement existing (requirements_or_empty (snd sc))) cs)"

definition mergeGroup :: "(pkey \<times> bgroup) list \<Rightarrow> bgroup \<Rightarrow> bgroup" where
  "mergeGroup gs g =
     (case map_of gs (sort_pair (parents g)) of
        None \<Rightarrow> g\<lparr>parents := sort_pair (parents g)\<rparr>
      | Some updatedGroup \<Rightarrow>
          \<lparr>parents = sort_pair (parents g),
           children = foldl mergeChild (children g) (children updatedGroup)\<rparr>)"

definition wasManual :: "bgroup list \<Rightarrow> bgroup \<Rightarrow> bool" where
  "wasManual manualMutations g =
     list_ex (\<lambda>manual. sort_pair (parents manual) = sort_pair (parents g)) manualMutations"

definition compareGroups :: "(string \<Rightarrow> string \<Rightarrow> int) \<Rightarrow> bgroup \<Rightarrow> bgroup \<Rightarrow> int" where
  "compareGroups lc a b =
     (if lc (fst (parents a)) (fst (parents b)) \<noteq> 0 then lc (fst (parents a)) (fst (parents b))
      else lc (snd (parents a)) (snd (parents b)))"

definition clean_child :: "child \<Rightarrow> child" where
  "clean_child c = (if requirements c = Some [] then c\<lparr>requirements := None\<rparr> else c)"

definition sortChildren :: "bgroup \<Rightarrow> bgroup" where
  "sortChildren g = g\<lparr>children := map (\<lambda>kc. (fst kc, clean_child (snd kc))) (sort_key fst (children g))\<rparr>"

definition initial_state :: "bgroup list \<Rightarrow> cstate" where
  "initial_state manualMutations =
     \<lparr>mutationGroups = seedGroups manualMutations, seenMutationKeys = [], skippedMutations = []\<rparr>"

definition newGroups :: "bgroup list \<Rightarrow> cstate \<Rightarrow> bgroup list" where
  "newGroups manualMutations st =
     filter (\<lambda>g. \<not> wasManual manualMutations g) (map snd (mutationGroups st))"

definition build_output :: "(string \<Rightarrow> string \<Rightarrow> int) \<Rightarrow> bgroup list \<Rightarrow> cstate \<Rightarrow> bgroup list" where
  "build_output lc manualMutations st =
     map sortChildren
       (map (mergeGroup (mutationGroups st)) manualMutations @
        sort_by (compareGroups lc)
          (map (\<lambda>g. g\<lparr>parents := sort_pair (parents g)\<rparr>) (newGroups manualMutations st)))"

definition buildBreedingPairsJsonc ::
  "(string \<Rightarrow> string \<Rightarrow> int) \<Rightarrow> string set \<Rightarrow> mutation list \<Rightarrow> bgroup list \<Rightarrow> error + bgroup list \<times> skip list" where
  "buildBreedingPairsJsonc lc bees mutations manualMutations =
     (case processMutations bees (manualMutationSet manualMutations)
             (initial_state manualMutations) mutations of
        Inl e \<Rightarrow> Inl e
      | Inr st \<Rightarrow> Inr (build_output lc manualMutations st, skippedMutations st))"


section \<open>Notions used in the statements and proofs about the consolidation\<close>

text \<open>The same relation with its two parents in the other order.\<close>

definition swap_parents :: "mutation \<Rightarrow> mutation" where
  "swap_parents m = m\<lparr>parent1 := parent2 m, parent2 := parent1 m\<rparr>"

text \<open>Two states that differ at most in the list of skipped mutations.\<close>

definition core_eq :: "cstate \<Rightarrow> cstate \<Rightarrow> bool" where
  "core_eq a b = (mutationGroups a = mutationGroups b \<and> seenMutationKeys a = seenMutationKeys b)"

definition result_eq :: "error + cstate \<Rightarrow> error + cstate \<Rightarrow> bool" where
  "result_eq r r' =
     (case r of
        Inl e \<Rightarrow> r' = Inl e
      | Inr a \<Rightarrow> (case r' of Inl e \<Rightarrow> False | Inr b \<Rightarrow> core_eq a b))"

text \<open>
  A mutation that the loop body leaves without effect on the groups and the seen keys: an
  identifier is missing or unknown, or its base key is in the manual index, or its full
  key has been seen.
\<close>

definition settled :: "string set \<Rightarrow> base_key list \<Rightarrow> mutation_key list \<Rightarrow> mutation \<Rightarrow> bool" where
  "settled bees ms seen m =
     (case present (parent1 m) of
        None \<Rightarrow> True
      | Some p1 \<Rightarrow>
     (case present (parent2 m) of
        None \<Rightarrow> True
      | Some p2 \<Rightarrow>
     (case present (offspring m) of
        None \<Rightarrow> True
      | Some off \<Rightarrow>
          if p1 \<in> bees \<and> p2 \<in> bees \<and> off \<in> bees
          then (sort_pair (p1, p2), off, JNum (fdiv (mchance m) 100)) \<in> set ms
             \<or> (sort_pair (p1, p2), off, fdiv (mchance m) 100, serializeConditions (conditions m))
                  \<in> set seen
          else True)))"

text \<open>
  The key under which the run remembers a relation (\<^verbatim>\<open>mutationKey\<close>, line 310), for a
  relation whose three identifiers are present.
\<close>

definition full_key :: "mutation \<Rightarrow> mutation_key option" where
  "full_key m =
     (case present (parent1 m) of
        None \<Rightarrow> None
      | Some p1 \<Rightarrow>
     (case present (parent2 m) of
        None \<Rightarrow> None
      | Some p2 \<Rightarrow>
     (case present (offspring m) of
        None \<Rightarrow> None
      | Some off \<Rightarrow>
          Some (sort_pair (p1, p2), off, fdiv (mchance m) 100,
                serializeConditions (conditions m)))))"

text \<open>
  The working copy has, in the group under \<open>pk\<close>, an entry for \<open>off\<close> with the default
  chance \<open>d\<close> whose requirement list is \<open>rs0\<close> followed by pushed entries, those of
  \<open>E\<close> among them.
\<close>

definition entry_state :: "cstate \<Rightarrow> pkey \<Rightarrow> string \<Rightarrow> rat \<Rightarrow> json obj list \<Rightarrow> json obj set \<Rightarrow> bool" where
  "entry_state st pk off d rs0 E =
     (\<exists>sg scd ext. map_of (mutationGroups st) pk = Some sg \<and> map_of (children sg) off = Some scd \<and>
        chance scd = d \<and> requirements scd = Some (rs0 @ ext) \<and> E \<subseteq> set ext)"

text \<open>The map of groups: one entry per key, each group under its own sorted parents.\<close>

definition keyed :: "(pkey \<times> bgroup) list \<Rightarrow> bool" where
  "keyed gs = (distinct (map fst gs) \<and>
               list_all (\<lambda>kg. parents (snd kg) = fst kg \<and> sort_pair (fst kg) = fst kg) gs)"

text \<open>Every key that has been seen names a group of the map.\<close>

definition seen_grouped :: "cstate \<Rightarrow> bool" where
  "seen_grouped st = list_all (\<lambda>k. fst k \<in> fst ` set (mutationGroups st)) (seenMutationKeys st)"


section \<open>buildShortestPathMutations\<close>

text \<open>
  The builder reads the groups of \<^verbatim>\<open>mutations.jsonc\<close> and the keys of the bees map. One
  entry of \<^verbatim>\<open>mutationGraph\<close> is the list of the candidate mutations of an offspring; the
  map keeps its keys in insertion order. The chance of a candidate is the requirement's own
  \<^verbatim>\<open>chance\<close> property when it has one (whatever its value), else the child's.
\<close>

datatype candidate =
  Candidate (cand_parents: "string \<times> string") (cand_chance: json)
            (cand_requirements: "json obj option") (isConditional: bool)

record schild =
  s_chance :: json
  s_requirements :: "json obj list option"

record sgroup =
  s_parents :: "string \<times> string"
  s_children :: "schild obj"

definition beesWithMutations :: "bgroup list \<Rightarrow> string list" where
  "beesWithMutations allMutations = concat (map (\<lambda>g. map fst (children g)) allMutations)"

definition baseBees :: "string list \<Rightarrow> bgroup list \<Rightarrow> string list" where
  "baseBees allBees allMutations =
     filter (\<lambda>beeId. beeId \<notin> set (beesWithMutations allMutations)) allBees"

definition requirement_candidate :: "string \<times> string \<Rightarrow> child \<Rightarrow> json obj \<Rightarrow> candidate" where
  "requirement_candidate ps childData req =
     Candidate ps (case map_of req ''chance'' of None \<Rightarrow> JNum (chance childData) | Some v \<Rightarrow> v)
       (Some req) True"

definition candidates_of :: "string \<times> string \<Rightarrow> child \<Rightarrow> candidate list" where
  "candidates_of ps childData =
     (if requirements_or_empty childData \<noteq> []
      then map (requirement_candidate ps childData) (requirements_or_empty childData)
      else [Candidate ps (JNum (chance childData)) None False])"

definition add_candidates :: "(string \<times> candidate list) list \<Rightarrow> string \<Rightarrow> candidate list \<Rightarrow> (string \<times> candidate list) list" where
  "add_candidates graph off cands =
     (case map_of graph off of
        None \<Rightarrow> graph @ [(off, cands)]
      | Some mutations \<Rightarrow> obj_set off (mutations @ cands) graph)"

definition add_group :: "(string \<times> candidate list) list \<Rightarrow> bgroup \<Rightarrow> (string \<times> candidate list) list" where
  "add_group graph g =
     foldl (\<lambda>gr oc. add_candidates gr (fst oc) (candidates_of (parents g) (snd oc)))
       graph (children g)"

definition mutationGraph :: "bgroup list \<Rightarrow> (string \<times> candidate list) list" where
  "mutationGraph allMutations = foldl add_group [] allMutations"

text \<open>
  The body of \<^verbatim>\<open>mutationGraph.forEach\<close> inside the \<^verbatim>\<open>while\<close> loop (lines 88 to 109): an
  offspring without a depth gets one from its first candidate whose parents both have a
  depth, and is queued.
\<close>

definition reachable_candidate :: "(string \<rightharpoonup> nat) \<Rightarrow> candidate \<Rightarrow> bool" where
  "reachable_candidate beeDepth c =
     (beeDepth (fst (cand_parents c)) \<noteq> None \<and> beeDepth (snd (cand_parents c)) \<noteq> None)"

definition maxParentDepth :: "(string \<rightharpoonup> nat) \<Rightarrow> candidate \<Rightarrow> nat" where
  "maxParentDepth beeDepth c =
     (case beeDepth (fst (cand_parents c)) of
        None \<Rightarrow> 0
      | Some depth1 \<Rightarrow>
          (case beeDepth (snd (cand_parents c)) of
             None \<Rightarrow> 0
           | Some depth2 \<Rightarrow> max depth1 depth2))"

definition visit :: "(string \<rightharpoonup> nat) \<times> string list \<Rightarrow> string \<times> candidate list \<Rightarrow> (string \<rightharpoonup> nat) \<times> string list" where
  "visit dq entry =
     (if fst dq (fst entry) \<noteq> None then dq
      else (case find (reachable_candidate (fst dq)) (snd entry) of
              None \<Rightarrow> dq
            | Some c \<Rightarrow>
                ((fst dq)(fst entry \<mapsto> maxParentDepth (fst dq) c + 1), snd dq @ [fst entry])))"

definition unassigned :: "(string \<times> candidate list) list \<Rightarrow> (string \<rightharpoonup> nat) \<Rightarrow> nat" where
  "unassigned graph beeDepth = length (filter (\<lambda>entry. beeDepth (fst entry) = None) graph)"

text \<open>
  The \<^verbatim>\<open>while\<close> loop of lines 83 to 110. The entry taken from the queue is not used by
  the scan. Every entry that a scan adds to the queue is an offspring that had no depth, so
  the loop ends: the number of graph entries without a depth plus the length of the queue
  goes down at every round.
\<close>

function bfs :: "(string \<times> candidate list) list \<Rightarrow> (string \<rightharpoonup> nat) \<times> string list \<Rightarrow> (string \<rightharpoonup> nat)" where
  "bfs graph (beeDepth, []) = beeDepth"
| "bfs graph (beeDepth, current # queue) = bfs graph (foldl visit (beeDepth, queue) graph)"
  by pat_completeness auto
termination
proof (relation "measure (\<lambda>(graph, dq). unassigned graph (fst dq) + length (snd dq))")
  show "wf (measure (\<lambda>(graph, dq). unassigned graph (fst dq) + length (snd dq)))"
    by simp
next
  fix graph :: "(string \<times> candidate list) list" and beeDepth :: "string \<rightharpoonup> nat"
    and current :: string and queue :: "string list"
  have drop: "length (filter (\<lambda>entry. (d(k \<mapsto> v)) (fst entry) = None) es)
                \<le> length (filter (\<lambda>entry. d (fst entry) = None) es)"
    for d :: "string \<rightharpoonup> nat" and k v and es :: "(string \<times> candidate list) list"
    by (induction es) auto
  have strict: "length (filter (\<lambda>entry. (d(fst e \<mapsto> v)) (fst entry) = None) es)
                < length (filter (\<lambda>entry. d (fst entry) = None) es)"
    if "e \<in> set es" "d (fst e) = None"
    for d :: "string \<rightharpoonup> nat" and e v and es :: "(string \<times> candidate list) list"
    using that
  proof (induction es)
    case Nil
    then show ?case by simp
  next
    case (Cons a es)
    show ?case
    proof (cases "fst a = fst e")
      case True
      then show ?thesis using Cons.prems drop[of d "fst e" v es]
        by (simp add: less_Suc_eq_le)
    next
      case False
      then have "e \<in> set es" using Cons.prems by auto
      from Cons.IH[OF this Cons.prems(2)] False show ?thesis by simp
    qed
  qed
  have step: "unassigned graph (fst (visit dq e)) + length (snd (visit dq e))
                \<le> unassigned graph (fst dq) + length (snd dq)"
    if "e \<in> set graph" for dq e
  proof (cases "visit dq e = dq")
    case True
    then show ?thesis by simp
  next
    case False
    then obtain c where none: "fst dq (fst e) = None"
      and v: "visit dq e = ((fst dq)(fst e \<mapsto> maxParentDepth (fst dq) c + 1), snd dq @ [fst e])"
      by (auto simp: visit_def split: option.splits if_splits)
    have "unassigned graph ((fst dq)(fst e \<mapsto> maxParentDepth (fst dq) c + 1))
            < unassigned graph (fst dq)"
      unfolding unassigned_def using that none by (rule strict)
    then show ?thesis by (simp add: v)
  qed
  have scan: "unassigned graph (fst (foldl visit dq es)) + length (snd (foldl visit dq es))
                \<le> unassigned graph (fst dq) + length (snd dq)"
    if "set es \<subseteq> set graph" for dq es
    using that
  proof (induction es arbitrary: dq)
    case Nil
    then show ?case by simp
  next
    case (Cons e es)
    have "unassigned graph (fst (foldl visit (visit dq e) es))
            + length (snd (foldl visit (visit dq e) es))
          \<le> unassigned graph (fst (visit dq e)) + length (snd (visit dq e))"
      using Cons.prems by (intro Cons.IH) simp
    also have "\<dots> \<le> unassigned graph (fst dq) + length (snd dq)"
      using Cons.prems by (intro step) simp
    finally show ?case by simp
  qed
  show "((graph, foldl visit (beeDepth, queue) graph), (graph, beeDepth, current # queue))
          \<in> measure (\<lambda>(graph, dq). unassigned graph (fst dq) + length (snd dq))"
    using scan[of graph "(beeDepth, queue)"] by simp
qed

text \<open>Second pass (lines 117 to 157): the first candidate at the depth of the offspring.\<close>

definition at_depth :: "(string \<rightharpoonup> nat) \<Rightarrow> nat \<Rightarrow> candidate \<Rightarrow> bool" where
  "at_depth beeDepth targetDepth c =
     (reachable_candidate beeDepth c \<and> maxParentDepth beeDepth c + 1 = targetDepth)"

definition child_of_candidate :: "candidate \<Rightarrow> schild" where
  "child_of_candidate c =
     \<lparr>s_chance = cand_chance c,
      s_requirements =
        (if isConditional c
         then (case cand_requirements c of None \<Rightarrow> None | Some req \<Rightarrow> Some [req])
         else None)\<rparr>"

definition set_child :: "(pkey \<times> sgroup) list \<Rightarrow> string \<Rightarrow> candidate \<Rightarrow> (pkey \<times> sgroup) list" where
  "set_child shortestMutations off c =
     (let parentKey = sort_pair (cand_parents c);
          g = (case map_of shortestMutations parentKey of
                 None \<Rightarrow> \<lparr>s_parents = parentKey, s_children = []\<rparr>
               | Some g \<Rightarrow> g)
      in obj_set parentKey (g\<lparr>s_children := obj_set off (child_of_candidate c) (s_children g)\<rparr>)
           shortestMutations)"

definition chosen :: "(string \<rightharpoonup> nat) \<Rightarrow> string \<times> candidate list \<Rightarrow> candidate option" where
  "chosen beeDepth entry =
     (case beeDepth (fst entry) of
        None \<Rightarrow> None
      | Some targetDepth \<Rightarrow> find (at_depth beeDepth targetDepth) (snd entry))"

definition pick :: "(string \<rightharpoonup> nat) \<Rightarrow> (pkey \<times> sgroup) list \<Rightarrow> string \<times> candidate list \<Rightarrow> (pkey \<times> sgroup) list" where
  "pick beeDepth shortestMutations entry =
     (case chosen beeDepth entry of
        None \<Rightarrow> shortestMutations
      | Some c \<Rightarrow> set_child shortestMutations (fst entry) c)"

definition compare_sgroups :: "(string \<Rightarrow> string \<Rightarrow> int) \<Rightarrow> sgroup \<Rightarrow> sgroup \<Rightarrow> int" where
  "compare_sgroups lc a b =
     (if lc (fst (s_parents a)) (fst (s_parents b)) \<noteq> 0
      then lc (fst (s_parents a)) (fst (s_parents b))
      else lc (snd (s_parents a)) (snd (s_parents b)))"

definition clean_schild :: "schild \<Rightarrow> schild" where
  "clean_schild c = (if s_requirements c = Some [] then c\<lparr>s_requirements := None\<rparr> else c)"

definition sort_schildren :: "sgroup \<Rightarrow> sgroup" where
  "sort_schildren g =
     g\<lparr>s_children := map (\<lambda>kc. (fst kc, clean_schild (snd kc))) (sort_key fst (s_children g))\<rparr>"

definition initialDepth :: "string list \<Rightarrow> (string \<rightharpoonup> nat)" where
  "initialDepth base = foldl (\<lambda>d bee. d(bee \<mapsto> 0)) Map.empty base"

definition offspring_count :: "string \<Rightarrow> sgroup list \<Rightarrow> nat" where
  "offspring_count off groups =
     sum_list (map (\<lambda>g. length (filter (\<lambda>kc. fst kc = off) (s_children g))) groups)"

definition beeDepths :: "string list \<Rightarrow> bgroup list \<Rightarrow> (string \<rightharpoonup> nat)" where
  "beeDepths allBees allMutations =
     bfs (mutationGraph allMutations)
       (initialDepth (baseBees allBees allMutations), baseBees allBees allMutations)"

definition buildShortestPathMutations :: "(string \<Rightarrow> string \<Rightarrow> int) \<Rightarrow> string list \<Rightarrow> bgroup list \<Rightarrow> sgroup list" where
  "buildShortestPathMutations lc allBees allMutations =
     map sort_schildren
       (sort_by (compare_sgroups lc)
          (map snd (foldl (pick (beeDepths allBees allMutations)) []
                      (mutationGraph allMutations))))"

section \<open>Notions used in the statements and proofs about the shortest paths\<close>

text \<open>A conditional candidate carries its requirement, an unconditional one none.\<close>

definition well_formed_candidate :: "candidate \<Rightarrow> bool" where
  "well_formed_candidate c = (isConditional c = (cand_requirements c \<noteq> None))"

text \<open>
  Every depth is accounted for: an entity that is no key of the graph is a base bee at depth
  0, a key of the graph has a candidate whose parents both have a depth, the larger one
  being one less than its own.
\<close>

definition justified :: "(string \<times> candidate list) list \<Rightarrow> string list \<Rightarrow> (string \<rightharpoonup> nat) \<Rightarrow> bool" where
  "justified graph base d =
     (\<forall>k n. d k = Some n \<longrightarrow>
        (case map_of graph k of
           None \<Rightarrow> k \<in> set base \<and> n = 0
         | Some cands \<Rightarrow> list_ex (at_depth d n) cands))"

text \<open>The map of the second pass holds the child \<open>ch\<close> for \<open>off\<close> in the group under \<open>k\<close>.\<close>

definition placed :: "(pkey \<times> sgroup) list \<Rightarrow> pkey \<Rightarrow> string \<Rightarrow> schild \<Rightarrow> bool" where
  "placed S k off ch = (\<exists>g. (k, g) \<in> set S \<and> s_parents g = k \<and> (off, ch) \<in> set (s_children g))"

definition own_parents :: "(pkey \<times> sgroup) list \<Rightarrow> bool" where
  "own_parents S = (distinct (map fst S) \<and> list_all (\<lambda>kg. s_parents (snd kg) = fst kg) S)"

text \<open>
  Example inputs. In the first, \<open>a\<close>, \<open>b\<close> and \<open>v\<close> are base bees, \<open>c\<close> comes from
  \<open>a, b\<close>, \<open>d\<close> from \<open>c, b\<close> under a condition, and \<open>u\<close> and \<open>w\<close> need each
  other. In the second, \<open>d\<close> comes from \<open>a, c\<close> and also from the base bees \<open>a, e\<close>.
\<close>

definition example_bees :: "string list" where
  "example_bees = [''a'', ''b'', ''c'', ''d'', ''u'', ''v'', ''w'']"

definition example_mutations :: "bgroup list" where
  "example_mutations =
     [\<lparr>parents = (''a'', ''b''), children = [(''c'', \<lparr>chance = round_double (1 / 10), requirements = None\<rparr>)]\<rparr>,
      \<lparr>parents = (''c'', ''b''),
        children = [(''d'', \<lparr>chance = round_double (1 / 5),
                       requirements = Some [[(''biome'', JStrs [''HELL''])]]\<rparr>)]\<rparr>,
      \<lparr>parents = (''u'', ''v''), children = [(''w'', \<lparr>chance = round_double (1 / 10), requirements = None\<rparr>)]\<rparr>,
      \<lparr>parents = (''w'', ''v''), children = [(''u'', \<lparr>chance = round_double (1 / 10), requirements = None\<rparr>)]\<rparr>]"

definition detour_bees :: "string list" where
  "detour_bees = [''a'', ''b'', ''c'', ''d'', ''e'']"

definition detour_mutations :: "bgroup list" where
  "detour_mutations =
     [\<lparr>parents = (''a'', ''b''), children = [(''c'', \<lparr>chance = round_double (1 / 10), requirements = None\<rparr>)]\<rparr>,
      \<lparr>parents = (''a'', ''c''), children = [(''d'', \<lparr>chance = round_double (1 / 10), requirements = None\<rparr>)]\<rparr>,
      \<lparr>parents = (''a'', ''e''), children = [(''d'', \<lparr>chance = round_double (1 / 10), requirements = None\<rparr>)]\<rparr>]"

section \<open>MagicBees identifiers\<close>

text \<open>
  The key of a MagicBees species is built from its enum symbol (line 1269), the display
  name from the same symbol (lines 1272 to 1281). Characters are ASCII: the symbols are
  Java identifiers.
\<close>

definition is_upper :: "char \<Rightarrow> bool" where
  "is_upper c = (c \<in> set ''ABCDEFGHIJKLMNOPQRSTUVWXYZ'')"

definition is_word :: "char \<Rightarrow> bool" where
  "is_word c =
     (c \<in> set ''ABCDEFGHIJKLMNOPQRSTUVWXYZabcdefghijklmnopqrstuvwxyz0123456789_'')"

definition ascii_upper :: "char \<Rightarrow> char" where
  "ascii_upper c =
     (case map_of (zip ''abcdefghijklmnopqrstuvwxyz'' ''ABCDEFGHIJKLMNOPQRSTUVWXYZ'') c of
        None \<Rightarrow> c
      | Some d \<Rightarrow> d)"

text \<open>\<^verbatim>\<open>s.replace(/_/g, "")\<close>.\<close>

definition remove_underscores :: "string \<Rightarrow> string" where
  "remove_underscores s = filter (\<lambda>c. c \<noteq> CHR ''_'') s"

text \<open>\<^verbatim>\<open>s.split(c)\<close> for a one-character separator: an empty string gives one empty part.\<close>

fun split_acc :: "char \<Rightarrow> string \<Rightarrow> string \<Rightarrow> string list" where
  "split_acc c acc [] = [rev acc]"
| "split_acc c acc (x # xs) =
     (if x = c then rev acc # split_acc c [] xs else split_acc c (x # acc) xs)"

definition split :: "char \<Rightarrow> string \<Rightarrow> string list" where
  "split c s = split_acc c [] s"

definition species_uid :: "string \<Rightarrow> string" where
  "species_uid enumName = ''magicbees:'' @ remove_underscores (toLowerCase enumName)"

definition display_part :: "string \<Rightarrow> string" where
  "display_part part =
     (if length part = 2 \<and> list_all is_upper part then part
      else (case part of [] \<Rightarrow> [] | x # xs \<Rightarrow> ascii_upper x # toLowerCase xs))"

definition displayName :: "string \<Rightarrow> string" where
  "displayName enumName = join '' '' (map display_part (split CHR ''_'' enumName))"

text \<open>
  \<^verbatim>\<open>resolveSpeciesReference\<close> (lines 1701 to 1734). \<open>bees\<close> lists the species parsed so
  far, each key with its \<^verbatim>\<open>_enumName\<close>. The two regular expressions are searched from the
  left; in both, the greedy \<^verbatim>\<open>\w+\<close> and \<^verbatim>\<open>\s*\<close> leave no second way to match at a
  position.
\<close>

definition trim :: "string \<Rightarrow> string" where
  "trim s = rev (dropWhile is_space (rev (dropWhile is_space s)))"

fun strip_prefix :: "string \<Rightarrow> string \<Rightarrow> string option" where
  "strip_prefix [] s = Some s"
| "strip_prefix (p # ps) [] = None"
| "strip_prefix (p # ps) (x # xs) = (if p = x then strip_prefix ps xs else None)"

definition quoted_word :: "string \<Rightarrow> string option" where
  "quoted_word s =
     (case strip_prefix ''\"'' s of
        None \<Rightarrow> None
      | Some r \<Rightarrow>
          if takeWhile is_word r \<noteq> [] \<and> strip_prefix ''\"'' (dropWhile is_word r) \<noteq> None
          then Some (takeWhile is_word r) else None)"

definition forestry_at :: "string \<Rightarrow> string option" where
  "forestry_at s =
     (case strip_prefix ''getForestrySpecies'' s of
        None \<Rightarrow> None
      | Some r \<Rightarrow>
          (case strip_prefix ''('' (dropWhile is_space r) of
             None \<Rightarrow> None
           | Some r' \<Rightarrow> quoted_word (dropWhile is_space r')))"

definition extrabees_at :: "string \<Rightarrow> string option" where
  "extrabees_at s =
     (case strip_prefix ''ExtraBeeDefinition.'' s of
        None \<Rightarrow> None
      | Some r \<Rightarrow> if takeWhile is_word r \<noteq> [] then Some (takeWhile is_word r) else None)"

fun first_match :: "(string \<Rightarrow> string option) \<Rightarrow> string \<Rightarrow> string option" where
  "first_match matcher [] = matcher []"
| "first_match matcher (x # xs) =
     (case matcher (x # xs) of None \<Rightarrow> first_match matcher xs | Some m \<Rightarrow> Some m)"

definition bare_symbol :: "string \<Rightarrow> bool" where
  "bare_symbol ref = (ref \<noteq> [] \<and> list_all (\<lambda>c. is_upper c \<or> c = CHR ''_'') ref)"

definition resolveSpeciesReference :: "string \<Rightarrow> (string \<times> string) list \<Rightarrow> string" where
  "resolveSpeciesReference ref0 bees =
     (let ref = trim ref0 in
      case find (\<lambda>ub. snd ub = ref) bees of
        Some ub \<Rightarrow> fst ub
      | None \<Rightarrow>
     (case first_match forestry_at ref of
        Some name \<Rightarrow> ''forestry:'' @ toLowerCase name
      | None \<Rightarrow>
     (case first_match extrabees_at ref of
        Some name \<Rightarrow> ''extrabees:'' @ toLowerCase name
      | None \<Rightarrow>
          if bare_symbol ref then ''magicbees:'' @ remove_underscores (toLowerCase ref)
          else ref)))"

text \<open>
  The lang file names a species by its camel-case symbol; \<^verbatim>\<open>parseMagicBeesLangFile\<close> keeps
  the lowercased symbol as key, \<^verbatim>\<open>applyLangNames\<close> looks up \<^verbatim>\<open>uid.split(":")[1]\<close>.
\<close>

definition lang_key :: "string \<Rightarrow> string" where
  "lang_key langEnumName = toLowerCase langEnumName"

definition bee_id :: "string \<Rightarrow> string option" where
  "bee_id uid = (case split CHR '':'' uid of a # b # rest \<Rightarrow> Some b | _ \<Rightarrow> None)"

definition is_lower :: "char \<Rightarrow> bool" where
  "is_lower c = (c \<in> set ''abcdefghijklmnopqrstuvwxyz'')"

section \<open>Consolidation: runs on concrete inputs\<close>

text \<open>The doubles of the runs below, compared by evaluating the rounding.\<close>

lemma round_double_0: "round_double 0 = 0"
  by code_simp

lemma threshold_pos: "0 < round_double (1 / 10000)"
  by code_simp

lemma threshold_not_neg: "\<not> round_double (1 / 10000) < 0"
  using threshold_pos by simp

lemma threshold_nonneg: "0 \<le> round_double (1 / 10000)"
  using threshold_pos by simp

lemma fsub_self: "fsub x x = 0"
  by (simp add: fsub_def round_double_0)

lemma chance_field_same: "chance_field c c = []"
  by (simp add: chance_field_def fsub_self threshold_not_neg)

lemma double_literals:
  "round_double (1 / 10) = 3602879701896397 / 36028797018963968"
  "round_double (1 / 5) = 3602879701896397 / 18014398509481984"
  "round_double (1 / 10000) = 7378697629483821 / 73786976294838206464"
  by code_simp+

lemma rounded_quotient: "fdiv (round_double (7 / 10)) 100 \<noteq> round_double (7 / 1000)"
  by code_simp

lemma chance_5_against_20:
  "round_double (1 / 10000) < \<bar>fsub (round_double (1 / 20)) (round_double (1 / 5))\<bar>"
  by code_simp

lemma chance_20_against_10:
  "round_double (1 / 10000) < \<bar>fsub (round_double (1 / 5)) (round_double (1 / 10))\<bar>"
  by code_simp


lemma chance_20001_not_20: "fdiv (round_double (20001 / 1000)) 100 \<noteq> round_double (1 / 5)"
  by code_simp

lemma chance_20001_against_20:
  "\<not> round_double (1 / 10000)
       < \<bar>fsub (fdiv (round_double (20001 / 1000)) 100) (round_double (1 / 5))\<bar>"
  by code_simp

lemmas double_facts =
  fdiv_def fsub_self threshold_not_neg threshold_nonneg chance_5_against_20 chance_20_against_10

lemmas run_defs =
  double_facts
  buildBreedingPairsJsonc_def manualMutationSet_def child_keys_def requirement_chance_def
  requirements_or_empty_def initial_state_def seedGroups_def processMutation_def present_def
  mergeMutation_def skip_with_def sort_pair_def serializeConditions_def group_or_new_def
  addMutationEntry_def condition_fields_def copy_if_def flag_if_def block_field_def
  chance_field_def checkIfInManualMutations_def tryResolve_def toLowerCase_def ascii_lower_def
  is_space_def build_output_def mergeGroup_def mergeChild_def mergeRequirement_def newGroups_def
  wasManual_def compareGroups_def sort_by_def sortChildren_def clean_child_def
  code_unit_compare_def Let_def

section \<open>Consolidation: properties of the helper functions\<close>

lemma map_of_obj_set: "map_of (obj_set k v kvs) = (map_of kvs)(k \<mapsto> v)"
  by (induction kvs) (auto simp: fun_eq_iff)

lemma keys_obj_set: "fst ` set (obj_set k v kvs) = insert k (fst ` set kvs)"
  by (induction kvs) auto

lemma set_obj_set: "set (obj_set k v kvs) \<subseteq> insert (k, v) (set kvs)"
  by (induction kvs) auto

lemma distinct_obj_set: "distinct (map fst kvs) \<Longrightarrow> distinct (map fst (obj_set k v kvs))"
proof (induction kvs)
  case Nil then show ?case by simp
next
  case (Cons kv kvs)
  then show ?case using keys_obj_set[of k v kvs] by (auto simp: image_iff)
qed

lemma set_insert_by: "set (insert_by cmp x xs) = insert x (set xs)"
  by (induction xs) auto

lemma set_sort_by: "set (sort_by cmp xs) = set xs"
  unfolding sort_by_def by (induction xs) (auto simp: set_insert_by)

lemma distinct_insert_by:
  "distinct (map f (insert_by cmp x xs)) = (f x \<notin> f ` set xs \<and> distinct (map f xs))"
  by (induction xs) (auto simp: set_insert_by)

lemma distinct_sort_by: "distinct (map f (sort_by cmp xs)) = distinct (map f xs)"
  unfolding sort_by_def
  by (induction xs) (auto simp: distinct_insert_by set_sort_by[unfolded sort_by_def])

lemma sort_pair_sorted: "fst (sort_pair p) \<le> snd (sort_pair p)"
  by (auto simp: sort_pair_def)

lemma sort_pair_idem: "sort_pair (sort_pair p) = sort_pair p"
  by (auto simp: sort_pair_def)

lemma sort_pair_swap: "sort_pair (b, a) = sort_pair (a, b)"
  by (auto simp: sort_pair_def)

lemma parents_sortChildren: "parents (sortChildren g) = parents g"
  by (simp add: sortChildren_def)

lemma parents_mergeGroup: "parents (mergeGroup gs g) = sort_pair (parents g)"
  by (simp add: mergeGroup_def split: option.splits)

lemma build_output_sorted:
  "g \<in> set (build_output lc manual st) \<Longrightarrow> fst (parents g) \<le> snd (parents g)"
  by (auto simp: build_output_def set_sort_by parents_sortChildren parents_mergeGroup sort_pair_sorted)

lemma build_output_manual_prefix:
  "map parents (take (length manual) (build_output lc manual st)) = map (\<lambda>g. sort_pair (parents g)) manual"
  by (simp add: build_output_def take_map parents_sortChildren parents_mergeGroup comp_def)

lemma keyed_obj_set:
  "keyed gs \<Longrightarrow> parents g = k \<Longrightarrow> sort_pair k = k \<Longrightarrow> keyed (obj_set k g gs)"
  using set_obj_set[of k g gs]
  by (auto simp: keyed_def distinct_obj_set list_all_iff)

lemma keyed_seed_aux:
  "keyed acc \<Longrightarrow> keyed (foldl (\<lambda>m g. obj_set (sort_pair (parents g))
                    \<lparr>parents = sort_pair (parents g), children = children g\<rparr> m) acc manual)"
proof (induction manual arbitrary: acc)
  case Nil then show ?case by simp
next
  case (Cons g manual)
  have "keyed (obj_set (sort_pair (parents g))
                 \<lparr>parents = sort_pair (parents g), children = children g\<rparr> acc)"
    using Cons.prems by (intro keyed_obj_set) (simp_all add: sort_pair_idem)
  then show ?case using Cons.IH by simp
qed

lemma keyed_seedGroups: "keyed (seedGroups manual)"
  unfolding seedGroups_def by (rule keyed_seed_aux) (simp add: keyed_def)

lemma parents_addMutationEntry:
  "addMutationEntry g off c conds = Inr g' \<Longrightarrow> parents g' = parents g"
  by (auto simp: addMutationEntry_def Let_def split: if_splits option.splits)

lemma parents_group_or_new: "keyed gs \<Longrightarrow> parents (group_or_new gs k) = k"
  by (auto simp: group_or_new_def keyed_def list_all_iff split: option.splits dest!: map_of_SomeD)

lemma keyed_processMutation:
  "processMutation bees ms st m = Inr st' \<Longrightarrow> keyed (mutationGroups st) \<Longrightarrow> keyed (mutationGroups st')"
  by (auto simp: processMutation_def mergeMutation_def skip_with_def Let_def sort_pair_idem
           split: option.splits sum.splits if_splits
           intro!: keyed_obj_set dest!: parents_addMutationEntry simp: parents_group_or_new)

lemma keyed_processMutations:
  "processMutations bees ms st xs = Inr st' \<Longrightarrow> keyed (mutationGroups st) \<Longrightarrow> keyed (mutationGroups st')"
proof (induction xs arbitrary: st)
  case Nil then show ?case by simp
next
  case (Cons m xs)
  then show ?case by (auto split: sum.splits dest: keyed_processMutation)
qed

lemma distinct_build_output:
  assumes k: "keyed (mutationGroups st)"
    and d: "distinct (map (\<lambda>g. sort_pair (parents g)) manual)"
  shows "distinct (map parents (build_output lc manual st))"
proof -
  let ?new = "map (\<lambda>g. g\<lparr>parents := sort_pair (parents g)\<rparr>) (newGroups manual st)"
  have own: "parents (snd kg) = fst kg \<and> sort_pair (fst kg) = fst kg" if "kg \<in> set (mutationGroups st)" for kg
    using k that by (auto simp: keyed_def list_all_iff)
  have "map parents (map snd (mutationGroups st)) = map fst (mutationGroups st)"
    using own by simp
  moreover have "distinct (map fst (mutationGroups st))"
    using k by (simp add: keyed_def)
  ultimately have "distinct (map parents (map snd (mutationGroups st)))"
    by (simp only:)
  then have dn: "distinct (map parents (newGroups manual st))"
    unfolding newGroups_def by (rule distinct_map_filter)
  have same: "map parents ?new = map parents (newGroups manual st)"
    using own by (auto simp: newGroups_def)
  have disj: "sort_pair (parents mg) \<noteq> parents g"
    if "g \<in> set (newGroups manual st)" "mg \<in> set manual" for g mg
    using that own by (auto simp: newGroups_def wasManual_def list_ex_iff)
  have out: "map parents (build_output lc manual st) =
      map (\<lambda>g. sort_pair (parents g)) manual @ map parents (sort_by (compareGroups lc) ?new)"
    by (simp add: build_output_def parents_sortChildren parents_mergeGroup comp_def)
  have "distinct (map parents ?new)"
    using dn by (simp only: same)
  then have "distinct (map parents (sort_by (compareGroups lc) ?new))"
    by (simp only: distinct_sort_by)
  moreover have "(\<lambda>g. sort_pair (parents g)) ` set manual \<inter> parents ` set (sort_by (compareGroups lc) ?new) = {}"
  proof -
    have "parents ` set (sort_by (compareGroups lc) ?new) = set (map parents ?new)"
      by (simp only: set_sort_by set_map)
    also have "\<dots> = parents ` set (newGroups manual st)"
      by (simp only: same set_map)
    finally have eq: "parents ` set (sort_by (compareGroups lc) ?new) = parents ` set (newGroups manual st)" .
    show ?thesis unfolding eq using disj by (fastforce simp del: set_map)
  qed
  ultimately show ?thesis using d by (simp only: out distinct_append set_map)
qed

lemma distinct_output:
  assumes run: "buildBreedingPairsJsonc lc bees mutations manual = Inr (output, skipped)"
    and d: "distinct (map (\<lambda>g. sort_pair (parents g)) manual)"
  shows "distinct (map parents output)"
proof -
  from run obtain st where st: "processMutations bees (manualMutationSet manual) (initial_state manual) mutations = Inr st"
    and out: "output = build_output lc manual st"
    by (auto simp: buildBreedingPairsJsonc_def split: sum.splits)
  have "keyed (mutationGroups (initial_state manual))"
    by (simp add: initial_state_def keyed_seedGroups)
  then have "keyed (mutationGroups st)"
    by (rule keyed_processMutations[OF st])
  then show ?thesis unfolding out using d by (rule distinct_build_output)
qed

lemma core_eq_refl: "core_eq a a" by (simp add: core_eq_def)

lemma result_eq_refl: "result_eq r r" by (simp add: result_eq_def core_eq_refl split: sum.splits)

lemma processMutation_core:
  "core_eq a b \<Longrightarrow> result_eq (processMutation bees ms a m) (processMutation bees ms b m)"
  by (auto simp: core_eq_def result_eq_def processMutation_def mergeMutation_def skip_with_def Let_def
           split: option.splits sum.splits)

lemma processMutations_core:
  "core_eq a b \<Longrightarrow> result_eq (processMutations bees ms a xs) (processMutations bees ms b xs)"
proof (induction xs arbitrary: a b)
  case Nil
  then show ?case by (simp add: result_eq_def)
next
  case (Cons m xs)
  have step: "result_eq (processMutation bees ms a m) (processMutation bees ms b m)"
    by (rule processMutation_core[OF Cons.prems])
  show ?case
  proof (cases "processMutation bees ms a m")
    case (Inl e)
    then show ?thesis using step by (simp add: result_eq_def)
  next
    case a: (Inr a')
    then obtain b' where b: "processMutation bees ms b m = Inr b'" and "core_eq a' b'"
      using step by (auto simp: result_eq_def split: sum.splits)
    then show ?thesis using a Cons.IH[of a' b'] by simp
  qed
qed

lemma processMutations_append:
  "processMutations bees ms st (xs @ ys) =
     (case processMutations bees ms st xs of
        Inl e \<Rightarrow> Inl e
      | Inr st' \<Rightarrow> processMutations bees ms st' ys)"
  by (induction xs arbitrary: st) (auto split: sum.splits)

lemma settled_swap:
  "settled bees ms seen (swap_parents m) = settled bees ms seen m"
  by (auto simp: settled_def swap_parents_def sort_pair_swap split: option.splits)

lemma settled_mono: "settled bees ms seen m \<Longrightarrow> set seen \<subseteq> set seen' \<Longrightarrow> settled bees ms seen' m"
  by (auto simp: settled_def split: option.splits if_splits)

lemma settled_after:
  "processMutation bees ms st m = Inr st' \<Longrightarrow> settled bees ms (seenMutationKeys st') m"
  by (auto simp: settled_def processMutation_def mergeMutation_def skip_with_def Let_def
           split: option.splits sum.splits if_splits)

lemma seen_mono:
  "processMutation bees ms st m = Inr st' \<Longrightarrow> set (seenMutationKeys st) \<subseteq> set (seenMutationKeys st')"
  by (auto simp: processMutation_def mergeMutation_def skip_with_def Let_def
           split: option.splits sum.splits if_splits)

lemma seen_mono_all:
  "processMutations bees ms st xs = Inr st' \<Longrightarrow> set (seenMutationKeys st) \<subseteq> set (seenMutationKeys st')"
proof (induction xs arbitrary: st)
  case Nil then show ?case by simp
next
  case (Cons m xs)
  then show ?case by (auto split: sum.splits dest!: seen_mono)
qed

lemma settled_no_effect:
  "settled bees ms (seenMutationKeys st) m \<Longrightarrow>
     \<exists>st'. processMutation bees ms st m = Inr st' \<and> core_eq st st'"
  by (auto simp: settled_def processMutation_def mergeMutation_def skip_with_def Let_def core_eq_def
           split: option.splits sum.splits if_splits)

lemma second_occurrence:
  "result_eq (processMutations bees ms st (pre @ m # mid @ swap_parents m # post))
             (processMutations bees ms st (pre @ m # mid @ post))"
proof (cases "processMutations bees ms st pre")
  case (Inl e)
  then show ?thesis by (simp add: processMutations_append result_eq_def)
next
  case pre: (Inr s0)
  show ?thesis
  proof (cases "processMutation bees ms s0 m")
    case (Inl e)
    then show ?thesis using pre by (simp add: processMutations_append result_eq_def)
  next
    case m: (Inr s1)
    show ?thesis
    proof (cases "processMutations bees ms s1 mid")
      case (Inl e)
      then show ?thesis using pre m by (simp add: processMutations_append result_eq_def)
    next
      case mid: (Inr s2)
      have "settled bees ms (seenMutationKeys s2) m"
        using settled_after[OF m] seen_mono_all[OF mid] by (rule settled_mono)
      then have "settled bees ms (seenMutationKeys s2) (swap_parents m)"
        by (simp add: settled_swap)
      then obtain s3 where s3: "processMutation bees ms s2 (swap_parents m) = Inr s3"
        and eq: "core_eq s2 s3"
        using settled_no_effect by blast
      have "result_eq (processMutations bees ms s3 post) (processMutations bees ms s2 post)"
        using eq by (intro processMutations_core) (simp add: core_eq_def)
      then show ?thesis using pre m mid s3 by (simp add: processMutations_append)
    qed
  qed
qed

lemma groups_only:
  "mutationGroups a = mutationGroups b \<Longrightarrow> build_output lc manual a = build_output lc manual b"
  by (simp add: build_output_def newGroups_def)

lemma processMutation_cases:
  assumes "processMutation bees ms st m = Inr st'"
  obtains (same) "core_eq st st'" "settled bees ms (seenMutationKeys st) m"
  | (merged) p1 p2 off g where
      "present (parent1 m) = Some p1" "present (parent2 m) = Some p2"
      "present (offspring m) = Some off" "p1 \<in> bees" "p2 \<in> bees" "off \<in> bees"
      "(sort_pair (p1, p2), off, JNum (fdiv (mchance m) 100)) \<notin> set ms"
      "(sort_pair (p1, p2), off, fdiv (mchance m) 100, serializeConditions (conditions m))
         \<notin> set (seenMutationKeys st)"
      "addMutationEntry (group_or_new (mutationGroups st) (sort_pair (p1, p2))) off
         (fdiv (mchance m) 100) (conditions m) = Inr g"
      "mutationGroups st' = obj_set (sort_pair (p1, p2)) g (mutationGroups st)"
      "seenMutationKeys st' =
         (sort_pair (p1, p2), off, fdiv (mchance m) 100, serializeConditions (conditions m))
           # seenMutationKeys st"
proof (cases "settled bees ms (seenMutationKeys st) m")
  case True
  then have "core_eq st st'"
    using assms
    by (auto simp: processMutation_def mergeMutation_def skip_with_def Let_def core_eq_def
                   settled_def
             split: option.splits if_splits)
  then show ?thesis using True by (rule same)
next
  case False
  then obtain p1 p2 off where p: "present (parent1 m) = Some p1" "present (parent2 m) = Some p2"
      "present (offspring m) = Some off" "p1 \<in> bees" "p2 \<in> bees" "off \<in> bees"
      "(sort_pair (p1, p2), off, JNum (fdiv (mchance m) 100)) \<notin> set ms"
      "(sort_pair (p1, p2), off, fdiv (mchance m) 100, serializeConditions (conditions m))
         \<notin> set (seenMutationKeys st)"
    by (auto simp: settled_def split: option.splits if_splits)
  then obtain g where g: "addMutationEntry (group_or_new (mutationGroups st) (sort_pair (p1, p2))) off
         (fdiv (mchance m) 100) (conditions m) = Inr g"
    and st': "st' = st\<lparr>mutationGroups := obj_set (sort_pair (p1, p2)) g (mutationGroups st),
                     seenMutationKeys :=
                       (sort_pair (p1, p2), off, fdiv (mchance m) 100, serializeConditions (conditions m))
                         # seenMutationKeys st\<rparr>"
    using assms
    by (auto simp: processMutation_def mergeMutation_def Let_def split: sum.splits)
  show ?thesis
    by (rule merged[OF p g]) (simp_all add: st')
qed

lemma keys_mono:
  assumes "processMutation bees ms st m = Inr st'"
  shows "fst ` set (mutationGroups st) \<subseteq> fst ` set (mutationGroups st')"
  using assms
proof (cases rule: processMutation_cases)
  case same
  then show ?thesis by (simp add: core_eq_def)
next
  case (merged p1 p2 off g)
  then show ?thesis by (simp only: keys_obj_set) blast
qed

lemma seen_grouped_step:
  assumes "processMutation bees ms st m = Inr st'" "seen_grouped st"
  shows "seen_grouped st'"
  using assms(1)
proof (cases rule: processMutation_cases)
  case same
  then show ?thesis using assms(2) by (simp add: core_eq_def seen_grouped_def)
next
  case (merged p1 p2 off g)
  then show ?thesis using assms(2)
    by (simp add: seen_grouped_def list_all_iff keys_obj_set)
qed

lemma accepted_key:
  assumes "processMutation bees ms st m = Inr st'" "seen_grouped st"
    and "present (parent1 m) = Some p1" "present (parent2 m) = Some p2" "present (offspring m) = Some off"
    and "p1 \<in> bees" "p2 \<in> bees" "off \<in> bees"
    and "(sort_pair (p1, p2), off, JNum (fdiv (mchance m) 100)) \<notin> set ms"
  shows "sort_pair (p1, p2) \<in> fst ` set (mutationGroups st')"
proof (cases "(sort_pair (p1, p2), off, fdiv (mchance m) 100, serializeConditions (conditions m))
                \<in> set (seenMutationKeys st)")
  case True
  then have "fst (sort_pair (p1, p2), off, fdiv (mchance m) 100, serializeConditions (conditions m))
               \<in> fst ` set (mutationGroups st)"
    using assms(2) unfolding seen_grouped_def list_all_iff by blast
  then have "sort_pair (p1, p2) \<in> fst ` set (mutationGroups st)" by simp
  then show ?thesis using keys_mono[OF assms(1)] by blast
next
  case False
  from assms(1) show ?thesis
  proof (cases rule: processMutation_cases)
    case same
    then show ?thesis using assms False by (simp add: settled_def)
  next
    case (merged q1 q2 off' g)
    then show ?thesis using assms by (simp add: keys_obj_set)
  qed
qed

lemma keys_mono_all:
  "processMutations bees ms st xs = Inr st' \<Longrightarrow>
     fst ` set (mutationGroups st) \<subseteq> fst ` set (mutationGroups st')"
proof (induction xs arbitrary: st)
  case Nil then show ?case by simp
next
  case (Cons m xs)
  then obtain s1 where s1: "processMutation bees ms st m = Inr s1"
    and rest: "processMutations bees ms s1 xs = Inr st'"
    by (auto split: sum.splits)
  show ?case using keys_mono[OF s1] Cons.IH[OF rest] by (rule subset_trans)
qed

lemma seen_grouped_all:
  "processMutations bees ms st xs = Inr st' \<Longrightarrow> seen_grouped st \<Longrightarrow> seen_grouped st'"
proof (induction xs arbitrary: st)
  case Nil then show ?case by simp
next
  case (Cons m xs)
  then obtain s1 where s1: "processMutation bees ms st m = Inr s1"
    and rest: "processMutations bees ms s1 xs = Inr st'"
    by (auto split: sum.splits)
  have "seen_grouped s1" using s1 Cons.prems(2) by (rule seen_grouped_step)
  then show ?case by (rule Cons.IH[OF rest])
qed

lemma accepted_key_all:
  assumes run: "processMutations bees ms st (pre @ m # rest) = Inr st'" and sg: "seen_grouped st"
    and m: "present (parent1 m) = Some p1" "present (parent2 m) = Some p2" "present (offspring m) = Some off"
       "p1 \<in> bees" "p2 \<in> bees" "off \<in> bees"
       "(sort_pair (p1, p2), off, JNum (fdiv (mchance m) 100)) \<notin> set ms"
  shows "sort_pair (p1, p2) \<in> fst ` set (mutationGroups st')"
proof -
  from run obtain s0 s1 where s0: "processMutations bees ms st pre = Inr s0"
    and s1: "processMutation bees ms s0 m = Inr s1"
    and s2: "processMutations bees ms s1 rest = Inr st'"
    by (auto simp: processMutations_append split: sum.splits)
  have "seen_grouped s0" using s0 sg by (rule seen_grouped_all)
  with s1 have "sort_pair (p1, p2) \<in> fst ` set (mutationGroups s1)"
    using m by (rule accepted_key)
  then show ?thesis using keys_mono_all[OF s2] by blast
qed

lemma key_in_output:
  assumes k: "keyed (mutationGroups st)" and pk: "pk \<in> fst ` set (mutationGroups st)"
  shows "pk \<in> parents ` set (build_output lc manual st)"
proof -
  from pk obtain g where g: "(pk, g) \<in> set (mutationGroups st)" by auto
  with k have pg: "parents g = pk" "sort_pair pk = pk"
    by (auto simp: keyed_def list_all_iff)
  show ?thesis
  proof (cases "wasManual manual g")
    case True
    then obtain mg where "mg \<in> set manual" "sort_pair (parents mg) = pk"
      using pg by (auto simp: wasManual_def list_ex_iff)
    then have "sortChildren (mergeGroup (mutationGroups st) mg) \<in> set (build_output lc manual st)"
      "parents (sortChildren (mergeGroup (mutationGroups st) mg)) = pk"
      by (auto simp: build_output_def parents_sortChildren parents_mergeGroup)
    then show ?thesis by (metis image_eqI)
  next
    case False
    then have "g \<in> set (newGroups manual st)"
      using g by (force simp: newGroups_def)
    then have "sortChildren (g\<lparr>parents := sort_pair (parents g)\<rparr>) \<in> set (build_output lc manual st)"
      by (auto simp: build_output_def set_sort_by)
    moreover have "parents (sortChildren (g\<lparr>parents := sort_pair (parents g)\<rparr>)) = pk"
      using pg by (simp add: parents_sortChildren)
    ultimately show ?thesis by (metis image_eqI)
  qed
qed

lemma seen_grouped_initial: "seen_grouped (initial_state manual)"
  by (simp add: seen_grouped_def initial_state_def)

lemma second_occurrence_output:
  "map_sum id fst (buildBreedingPairsJsonc lc bees (pre @ m # mid @ swap_parents m # post) manualMutations) =
        map_sum id fst (buildBreedingPairsJsonc lc bees (pre @ m # mid @ post) manualMutations)"
proof -
  let ?ms = "manualMutationSet manualMutations" and ?i = "initial_state manualMutations"
  have r: "result_eq (processMutations bees ?ms ?i (pre @ m # mid @ swap_parents m # post))
        (processMutations bees ?ms ?i (pre @ m # mid @ post))"
    by (rule second_occurrence)
  show ?thesis
  proof (cases "processMutations bees ?ms ?i (pre @ m # mid @ swap_parents m # post)")
    case (Inl e)
    then show ?thesis using r by (simp add: buildBreedingPairsJsonc_def result_eq_def)
  next
    case a: (Inr a)
    then obtain b where b: "processMutations bees ?ms ?i (pre @ m # mid @ post) = Inr b"
      and "core_eq a b"
      using r by (auto simp: result_eq_def split: sum.splits)
    then have "build_output lc manualMutations a = build_output lc manualMutations b"
      by (intro groups_only) (simp add: core_eq_def)
    then show ?thesis using a b by (simp add: buildBreedingPairsJsonc_def)
  qed
qed

lemma accepted_group_in_output:
  assumes run: "buildBreedingPairsJsonc lc bees mutations manualMutations = Inr (out, skipped)"
    and mutations: "mutations = pre @ m # rest"
    and m: "present (parent1 m) = Some p1" "present (parent2 m) = Some p2"
           "present (offspring m) = Some off" "p1 \<in> bees" "p2 \<in> bees" "off \<in> bees"
           "(sort_pair (p1, p2), off, JNum (fdiv (mchance m) 100)) \<notin> set (manualMutationSet manualMutations)"
  shows "sort_pair (p1, p2) \<in> parents ` set out"
proof -
  from run obtain st where st: "processMutations bees (manualMutationSet manualMutations)
        (initial_state manualMutations) mutations = Inr st"
    and out: "out = build_output lc manualMutations st"
    by (auto simp: buildBreedingPairsJsonc_def split: sum.splits)
  have "keyed (mutationGroups (initial_state manualMutations))"
    by (simp add: initial_state_def keyed_seedGroups)
  then have k: "keyed (mutationGroups st)" by (rule keyed_processMutations[OF st])
  have "sort_pair (p1, p2) \<in> fst ` set (mutationGroups st)"
    by (rule accepted_key_all[OF st[unfolded mutations] seen_grouped_initial m])
  with k show "sort_pair (p1, p2) \<in> parents ` set out"
    unfolding out by (rule key_in_output)
qed

lemma inManual_index:
  "list_ex (\<lambda>key. fst (snd key) = off) (manualMutationSet manual) =
     (\<exists>g \<in> set manual. \<exists>sc \<in> set (children g).
        requirements_or_empty (snd sc) \<noteq> [] \<and> fst sc = off)"
proof
  assume "list_ex (\<lambda>key. fst (snd key) = off) (manualMutationSet manual)"
  then obtain key where "key \<in> set (manualMutationSet manual)" "fst (snd key) = off"
    by (auto simp: list_ex_iff)
  then obtain g sc r where "g \<in> set manual" "sc \<in> set (children g)"
    "r \<in> set (requirements_or_empty (snd sc))" "fst sc = off"
    by (auto simp: manualMutationSet_def child_keys_def)
  then show "\<exists>g \<in> set manual. \<exists>sc \<in> set (children g).
        requirements_or_empty (snd sc) \<noteq> [] \<and> fst sc = off"
    by force
next
  assume "\<exists>g \<in> set manual. \<exists>sc \<in> set (children g).
        requirements_or_empty (snd sc) \<noteq> [] \<and> fst sc = off"
  then obtain g sc r where g: "g \<in> set manual" "sc \<in> set (children g)"
    "r \<in> set (requirements_or_empty (snd sc))" "fst sc = off"
    by (metis last_in_set)
  then have "(sort_pair (parents g), off, requirement_chance (snd sc) r)
               \<in> set (manualMutationSet manual)"
    by (force simp: manualMutationSet_def child_keys_def)
  then show "list_ex (\<lambda>key. fst (snd key) = off) (manualMutationSet manual)"
    unfolding list_ex_iff by force
qed





lemma map_of_copy_if_chance: "k \<noteq> ''chance'' \<Longrightarrow> map_of (copy_if cs k) ''chance'' = None"
  by (simp add: copy_if_def split: option.splits)

lemma map_of_flag_if_chance: "k \<noteq> ''chance'' \<Longrightarrow> map_of (flag_if cs k) ''chance'' = None"
  by (simp add: flag_if_def split: option.splits)

lemma map_of_block_field_chance: "map_of (block_field cs) ''chance'' = None"
  by (simp add: block_field_def copy_if_def split: option.splits)

lemma map_of_condition_fields_chance: "map_of (condition_fields c) ''chance'' = None"
  by (simp add: condition_fields_def map_add_def map_of_copy_if_chance
        map_of_flag_if_chance map_of_block_field_chance split: option.splits)

lemma map_of_chance_field:
  "map_of (chance_field c d) ''chance'' = (if \<bar>fsub c d\<bar> > round_double (1 / 10000) then Some (JNum c) else None)"
  by (simp add: chance_field_def)

lemma map_of_mutationEntry_chance:
  "map_of (condition_fields conds @ chance_field c d) ''chance'' =
     (if \<bar>fsub c d\<bar> > round_double (1 / 10000) then Some (JNum c) else None)"
  by (simp add: map_add_def map_of_condition_fields_chance map_of_chance_field)

text \<open>
  Claim C1. An extracted relation whose sorted parents, offspring and chance / 100 equal an
  override entry is to be dropped and recorded with \<open>inManual = True\<close>, also when the
  override entry is unconditional. The index is filled from the requirement lists only
  (line 236, \<^verbatim>\<open>childData.requirements || []\<close>), so an unconditional override entry puts no
  key into it: with the override \<open>{x, y} \<rightarrow> z\<close> at chance 0.2 and no requirements, and
  the extracted relation \<open>x, y \<rightarrow> z\<close> at chance 20, the index is empty, the relation
  is processed like any other and the list of skipped mutations stays empty.
\<close>

theorem unconditional_override_not_indexed:
  "manualMutationSet
     [\<lparr>parents = (''m:x'', ''m:y''),
       children = [(''m:z'', \<lparr>chance = round_double (1 / 5), requirements = None\<rparr>)]\<rparr>] = [] \<and>
   buildBreedingPairsJsonc lc {''m:x'', ''m:y'', ''m:z''}
     [\<lparr>parent1 = Some ''m:x'', parent2 = Some ''m:y'', offspring = Some ''m:z'',
       mchance = 20, conditions = None\<rparr>]
     [\<lparr>parents = (''m:x'', ''m:y''),
       children = [(''m:z'', \<lparr>chance = round_double (1 / 5), requirements = None\<rparr>)]\<rparr>]
   = Inr ([\<lparr>parents = (''m:x'', ''m:y''),
            children = [(''m:z'', \<lparr>chance = round_double (1 / 5), requirements = None\<rparr>)]\<rparr>], [])"
  by (simp add: run_defs)

text \<open>
  The keys that are in the index do their work: every requirement of a manual entry puts
  its key there, and a relation with known identifiers whose base key is in the index is
  dropped and recorded with \<open>inManual = True\<close>.
\<close>

lemma requirement_key_indexed:
  assumes "g \<in> set manualMutations" "sc \<in> set (children g)"
    "requirement \<in> set (requirements_or_empty (snd sc))"
  shows "(sort_pair (parents g), fst sc, requirement_chance (snd sc) requirement)
           \<in> set (manualMutationSet manualMutations)"
  using assms by (force simp: manualMutationSet_def child_keys_def)

lemma indexed_relation_dropped:
  assumes "present (parent1 m) = Some p1" "present (parent2 m) = Some p2"
    "present (offspring m) = Some off" "p1 \<in> bees" "p2 \<in> bees" "off \<in> bees"
    "(sort_pair (p1, p2), off, JNum (fdiv (mchance m) 100)) \<in> set ms"
  shows "processMutation bees ms st m =
           Inr (st\<lparr>skippedMutations := skippedMutations st @ [Skip (offspring m) True]\<rparr>)"
  using assms by (simp add: processMutation_def mergeMutation_def skip_with_def Let_def)

subsection \<open>An offspring entry of a manual group through the run and the merge\<close>

lemma map_of_seed_other:
  "k \<notin> (\<lambda>g. sort_pair (parents g)) ` set manual \<Longrightarrow>
   map_of (foldl (\<lambda>m g. obj_set (sort_pair (parents g))
                    \<lparr>parents = sort_pair (parents g), children = children g\<rparr> m) acc manual) k
     = map_of acc k"
  by (induction manual arbitrary: acc) (auto simp: map_of_obj_set)

lemma map_of_seed_aux:
  "distinct (map (\<lambda>g. sort_pair (parents g)) manual) \<Longrightarrow> mg \<in> set manual \<Longrightarrow>
   map_of (foldl (\<lambda>m g. obj_set (sort_pair (parents g))
                    \<lparr>parents = sort_pair (parents g), children = children g\<rparr> m) acc manual)
       (sort_pair (parents mg))
     = Some \<lparr>parents = sort_pair (parents mg), children = children mg\<rparr>"
proof (induction manual arbitrary: acc)
  case Nil
  then show ?case by simp
next
  case (Cons g manual)
  show ?case
  proof (cases "mg = g")
    case True
    then have "sort_pair (parents mg) \<notin> (\<lambda>g. sort_pair (parents g)) ` set manual"
      using Cons.prems(1) by auto
    then show ?thesis using True by (simp add: map_of_seed_other map_of_obj_set)
  next
    case False
    then show ?thesis using Cons by simp
  qed
qed

lemma map_of_seedGroups:
  "distinct (map (\<lambda>g. sort_pair (parents g)) manual) \<Longrightarrow> mg \<in> set manual \<Longrightarrow>
   map_of (seedGroups manual) (sort_pair (parents mg))
     = Some \<lparr>parents = sort_pair (parents mg), children = children mg\<rparr>"
  unfolding seedGroups_def by (rule map_of_seed_aux)

lemma entry_state_initial:
  assumes "distinct (map (\<lambda>g. sort_pair (parents g)) manual)" "mg \<in> set manual"
    "map_of (children mg) off = Some cd" "requirements cd = Some rs"
  shows "entry_state (initial_state manual) (sort_pair (parents mg)) off (chance cd) rs {}"
  using assms map_of_seedGroups[OF assms(1,2)]
  by (simp add: entry_state_def initial_state_def)

lemma entry_state_mono:
  "entry_state st pk off d rs0 E \<Longrightarrow> E' \<subseteq> E \<Longrightarrow> entry_state st pk off d rs0 E'"
  unfolding entry_state_def by blast

lemma addMutationEntry_other:
  assumes "addMutationEntry g off' c conds = Inr g'" "off' \<noteq> off"
  shows "map_of (children g') off = map_of (children g) off"
  using assms
  by (auto simp: addMutationEntry_def Let_def map_of_obj_set map_add_def
           split: option.splits if_splits)

lemma addMutationEntry_same:
  assumes "addMutationEntry g off c conds = Inr g'" "map_of (children g) off = Some scd"
    "requirements scd = Some rs"
  shows "\<exists>scd'. map_of (children g') off = Some scd' \<and> chance scd' = chance scd \<and>
           requirements scd' =
             Some (rs @ (if condition_fields conds @ chance_field c (chance scd) = [] then []
                         else [condition_fields conds @ chance_field c (chance scd)]))"
  using assms
  by (auto simp: addMutationEntry_def Let_def map_of_obj_set split: if_splits)

lemma entry_state_merged:
  assumes es: "entry_state st pk off d rs0 E"
    and g: "addMutationEntry (group_or_new (mutationGroups st) pk') off' c conds = Inr g"
    and st': "mutationGroups st' = obj_set pk' g (mutationGroups st)"
  shows "entry_state st' pk off d rs0
           (if pk' = pk \<and> off' = off \<and> condition_fields conds @ chance_field c d \<noteq> []
            then insert (condition_fields conds @ chance_field c d) E else E)"
proof -
  from es obtain sg scd ext where sg: "map_of (mutationGroups st) pk = Some sg"
    and scd: "map_of (children sg) off = Some scd" "chance scd = d"
      "requirements scd = Some (rs0 @ ext)" and E: "E \<subseteq> set ext"
    unfolding entry_state_def by blast
  show ?thesis
  proof (cases "pk' = pk")
    case False
    then have "map_of (mutationGroups st') pk = Some sg"
      using sg by (simp add: st' map_of_obj_set)
    then show ?thesis using scd E False unfolding entry_state_def by auto
  next
    case pk: True
    then have grp: "group_or_new (mutationGroups st) pk' = sg"
      using sg by (simp add: group_or_new_def)
    have look: "map_of (mutationGroups st') pk = Some g"
      using pk by (simp add: st' map_of_obj_set)
    show ?thesis
    proof (cases "off' = off")
      case False
      then have "map_of (children g) off = Some scd"
        using addMutationEntry_other[OF g[unfolded grp]] scd(1) by simp
      then show ?thesis using look scd E False unfolding entry_state_def by auto
    next
      case True
      from addMutationEntry_same[OF g[unfolded grp True] scd(1,3)]
      obtain scd' where scd': "map_of (children g) off = Some scd'" "chance scd' = d"
        "requirements scd' =
           Some ((rs0 @ ext) @ (if condition_fields conds @ chance_field c d = [] then []
                                else [condition_fields conds @ chance_field c d]))"
        using scd(2) by auto
      let ?ext = "ext @ (if condition_fields conds @ chance_field c d = [] then []
                         else [condition_fields conds @ chance_field c d])"
      have "requirements scd' = Some (rs0 @ ?ext)" using scd'(3) by simp
      moreover have "(if pk' = pk \<and> off' = off \<and> condition_fields conds @ chance_field c d \<noteq> []
            then insert (condition_fields conds @ chance_field c d) E else E) \<subseteq> set ?ext"
        using E by auto
      ultimately show ?thesis using look scd'(1,2) unfolding entry_state_def by blast
    qed
  qed
qed

lemma entry_state_step:
  assumes "processMutation bees ms st m = Inr st'" "entry_state st pk off d rs0 E"
  shows "entry_state st' pk off d rs0 E"
  using assms(1)
proof (cases rule: processMutation_cases)
  case same
  then show ?thesis using assms(2) by (simp add: core_eq_def entry_state_def)
next
  case (merged p1 p2 off' g)
  from entry_state_merged[OF assms(2) merged(9,10)] show ?thesis
    by (rule entry_state_mono) auto
qed

lemma entry_state_all:
  "processMutations bees ms st xs = Inr st' \<Longrightarrow> entry_state st pk off d rs0 E \<Longrightarrow>
     entry_state st' pk off d rs0 E"
proof (induction xs arbitrary: st)
  case Nil
  then show ?case by simp
next
  case (Cons m xs)
  then obtain s1 where s1: "processMutation bees ms st m = Inr s1"
    and rest: "processMutations bees ms s1 xs = Inr st'"
    by (auto split: sum.splits)
  have "entry_state s1 pk off d rs0 E" using s1 Cons.prems(2) by (rule entry_state_step)
  then show ?case by (rule Cons.IH[OF rest])
qed

lemma entry_state_accept:
  assumes step: "processMutation bees ms st m = Inr st'"
    and es: "entry_state st (sort_pair (p1, p2)) off d rs0 E"
    and m: "present (parent1 m) = Some p1" "present (parent2 m) = Some p2"
      "present (offspring m) = Some off" "p1 \<in> bees" "p2 \<in> bees" "off \<in> bees"
      "(sort_pair (p1, p2), off, JNum (fdiv (mchance m) 100)) \<notin> set ms"
      "(sort_pair (p1, p2), off, fdiv (mchance m) 100, serializeConditions (conditions m))
         \<notin> set (seenMutationKeys st)"
    and e: "condition_fields (conditions m) @ chance_field (fdiv (mchance m) 100) d \<noteq> []"
  shows "entry_state st' (sort_pair (p1, p2)) off d rs0
           {condition_fields (conditions m) @ chance_field (fdiv (mchance m) 100) d}"
  using step
proof (cases rule: processMutation_cases)
  case same
  then show ?thesis using m by (simp add: settled_def)
next
  case (merged q1 q2 off' g)
  then have eq: "q1 = p1" "q2 = p2" "off' = off" using m by simp_all
  from entry_state_merged[OF es merged(9,10)[unfolded eq]] e show ?thesis
    by (auto intro: entry_state_mono)
qed

lemma seen_keys_step:
  assumes "processMutation bees ms st m = Inr st'"
  shows "set (seenMutationKeys st') \<subseteq> set (seenMutationKeys st) \<union> {k. full_key m = Some k}"
  using assms
proof (cases rule: processMutation_cases)
  case same
  then show ?thesis by (auto simp: core_eq_def)
next
  case (merged p1 p2 off g)
  then show ?thesis by (auto simp: full_key_def)
qed

lemma seen_keys_all:
  "processMutations bees ms st xs = Inr st' \<Longrightarrow>
     set (seenMutationKeys st') \<subseteq> set (seenMutationKeys st) \<union> {k. Some k \<in> full_key ` set xs}"
proof (induction xs arbitrary: st)
  case Nil
  then show ?case by simp
next
  case (Cons m xs)
  then obtain s1 where s1: "processMutation bees ms st m = Inr s1"
    and rest: "processMutations bees ms s1 xs = Inr st'"
    by (auto split: sum.splits)
  from seen_keys_step[OF s1] Cons.IH[OF rest] show ?case by auto
qed

lemma entry_state_run:
  assumes run: "processMutations bees ms (initial_state manual) (pre @ m # rest) = Inr st"
    and init: "entry_state (initial_state manual) (sort_pair (p1, p2)) off d rs0 {}"
    and m: "present (parent1 m) = Some p1" "present (parent2 m) = Some p2"
      "present (offspring m) = Some off" "p1 \<in> bees" "p2 \<in> bees" "off \<in> bees"
      "(sort_pair (p1, p2), off, JNum (fdiv (mchance m) 100)) \<notin> set ms"
    and first: "full_key m \<notin> full_key ` set pre"
    and e: "condition_fields (conditions m) @ chance_field (fdiv (mchance m) 100) d \<noteq> []"
  shows "entry_state st (sort_pair (p1, p2)) off d rs0
           {condition_fields (conditions m) @ chance_field (fdiv (mchance m) 100) d}"
proof -
  from run obtain s0 s1 where s0: "processMutations bees ms (initial_state manual) pre = Inr s0"
    and s1: "processMutation bees ms s0 m = Inr s1"
    and s2: "processMutations bees ms s1 rest = Inr st"
    by (auto simp: processMutations_append split: sum.splits)
  have es0: "entry_state s0 (sort_pair (p1, p2)) off d rs0 {}"
    using s0 init by (rule entry_state_all)
  have key: "full_key m = Some (sort_pair (p1, p2), off, fdiv (mchance m) 100,
                                serializeConditions (conditions m))"
    using m by (simp add: full_key_def)
  have "(sort_pair (p1, p2), off, fdiv (mchance m) 100, serializeConditions (conditions m))
          \<notin> set (seenMutationKeys s0)"
    using seen_keys_all[OF s0] first key by (auto simp: initial_state_def)
  with s1 es0 m have "entry_state s1 (sort_pair (p1, p2)) off d rs0
           {condition_fields (conditions m) @ chance_field (fdiv (mchance m) 100) d}"
    using e by (intro entry_state_accept)
  with s2 show ?thesis by (rule entry_state_all)
qed

lemma mergeRequirement_fold:
  "chance (foldl mergeRequirement x rs) = chance x \<and>
   (\<exists>ext. requirements_or_empty (foldl mergeRequirement x rs) = requirements_or_empty x @ ext) \<and>
   set rs \<subseteq> set (requirements_or_empty (foldl mergeRequirement x rs)) \<and>
   (requirements x \<noteq> None \<longrightarrow> requirements (foldl mergeRequirement x rs) \<noteq> None)"
proof (induction rs arbitrary: x)
  case Nil
  then show ?case by simp
next
  case (Cons r rs)
  let ?y = "mergeRequirement x r"
  have y: "chance ?y = chance x"
    "\<exists>ext. requirements_or_empty ?y = requirements_or_empty x @ ext"
    "r \<in> set (requirements_or_empty ?y)"
    "requirements x \<noteq> None \<longrightarrow> requirements ?y \<noteq> None"
    by (auto simp: mergeRequirement_def requirements_or_empty_def)
  from Cons.IH[of ?y] y show ?case by auto
qed

lemma mergeChild_step:
  assumes "map_of cs off = Some x" "requirements x = Some rs0"
  shows "\<exists>x' ext. map_of (mergeChild cs sc) off = Some x' \<and> chance x' = chance x \<and>
           requirements x' = Some (rs0 @ ext) \<and>
           (fst sc = off \<longrightarrow> set (requirements_or_empty (snd sc)) \<subseteq> set (rs0 @ ext))"
proof (cases "fst sc = off")
  case True
  let ?x' = "foldl mergeRequirement x (requirements_or_empty (snd sc))"
  have look: "map_of (mergeChild cs sc) off = Some ?x'"
    using assms(1) True by (simp add: mergeChild_def map_of_obj_set)
  from mergeRequirement_fold[of x "requirements_or_empty (snd sc)"] assms(2)
  obtain ext where "chance ?x' = chance x" "requirements ?x' = Some (rs0 @ ext)"
    "set (requirements_or_empty (snd sc)) \<subseteq> set (rs0 @ ext)"
    by (auto simp: requirements_or_empty_def split: option.splits)
  with look show ?thesis by blast
next
  case False
  then have "map_of (mergeChild cs sc) off = Some x"
    using assms(1)
    by (auto simp: mergeChild_def map_of_obj_set map_add_def split: option.splits)
  then show ?thesis using assms(2) False by (intro exI[of _ x] exI[of _ "[]"]) simp
qed

lemma mergeChild_fold:
  assumes "map_of cs off = Some x" "requirements x = Some rs0"
  shows "\<exists>x' ext. map_of (foldl mergeChild cs scs) off = Some x' \<and> chance x' = chance x \<and>
           requirements x' = Some (rs0 @ ext) \<and>
           (\<forall>sc \<in> set scs. fst sc = off \<longrightarrow>
              set (requirements_or_empty (snd sc)) \<subseteq> set (rs0 @ ext))"
  using assms
proof (induction scs arbitrary: cs x rs0)
  case Nil
  then show ?case by (intro exI[of _ x] exI[of _ "[]"]) simp
next
  case (Cons sc scs)
  from mergeChild_step[OF Cons.prems, of sc]
  obtain x1 ext1 where x1: "map_of (mergeChild cs sc) off = Some x1" "chance x1 = chance x"
    "requirements x1 = Some (rs0 @ ext1)"
    "fst sc = off \<longrightarrow> set (requirements_or_empty (snd sc)) \<subseteq> set (rs0 @ ext1)"
    by blast
  from Cons.IH[OF x1(1,3)]
  obtain x2 ext2 where x2: "map_of (foldl mergeChild (mergeChild cs sc) scs) off = Some x2"
    "chance x2 = chance x1" "requirements x2 = Some ((rs0 @ ext1) @ ext2)"
    "\<forall>sc \<in> set scs. fst sc = off \<longrightarrow>
        set (requirements_or_empty (snd sc)) \<subseteq> set ((rs0 @ ext1) @ ext2)"
    by blast
  have "requirements x2 = Some (rs0 @ (ext1 @ ext2))" using x2(3) by simp
  moreover have "\<forall>sc' \<in> set (sc # scs). fst sc' = off \<longrightarrow>
        set (requirements_or_empty (snd sc')) \<subseteq> set (rs0 @ (ext1 @ ext2))"
    using x1(4) x2(4) by auto
  ultimately show ?case using x2(1,2) x1(2) by (intro exI[of _ x2] exI[of _ "ext1 @ ext2"]) simp
qed

lemma map_of_insort_key:
  "map_of (insort_key fst x xs) k = map_of (x # xs) k"
  by (induction xs) auto

lemma map_of_sort_key: "map_of (sort_key fst xs) k = map_of xs k"
proof (induction xs)
  case Nil
  then show ?case by simp
next
  case (Cons x xs)
  have "map_of (sort_key fst (x # xs)) k = map_of (insort_key fst x (sort_key fst xs)) k"
    by simp
  also have "\<dots> = map_of (x # sort_key fst xs) k" by (rule map_of_insort_key)
  finally show ?case using Cons by simp
qed

lemma map_of_map_snd:
  "map_of (map (\<lambda>kc. (fst kc, f (snd kc))) xs) k = map_option f (map_of xs k)"
  by (induction xs) auto

lemma map_of_sortChildren:
  "map_of (children (sortChildren g)) k = map_option clean_child (map_of (children g) k)"
  by (simp add: sortChildren_def map_of_map_snd map_of_sort_key)

lemma entry_in_output:
  assumes st: "entry_state st (sort_pair (parents mg)) off (chance cd) rs {e}"
    and mg: "mg \<in> set manual" "map_of (children mg) off = Some cd" "requirements cd = Some rs"
  shows "\<exists>g \<in> set (build_output lc manual st). parents g = sort_pair (parents mg) \<and>
           (\<exists>ext. map_of (children g) off
                     = Some \<lparr>chance = chance cd, requirements = Some (rs @ ext)\<rparr> \<and>
                   e \<in> set (rs @ ext))"
proof -
  from st obtain sg scd ext0 where sg: "map_of (mutationGroups st) (sort_pair (parents mg)) = Some sg"
    and scd: "map_of (children sg) off = Some scd" "requirements scd = Some (rs @ ext0)"
      "e \<in> set ext0"
    unfolding entry_state_def by blast
  let ?g = "mergeGroup (mutationGroups st) mg"
  have ch: "children ?g = foldl mergeChild (children mg) (children sg)"
    using sg by (simp add: mergeGroup_def)
  from mergeChild_fold[OF mg(2,3), of "children sg"]
  obtain x' ext where x': "map_of (children ?g) off = Some x'" "chance x' = chance cd"
    "requirements x' = Some (rs @ ext)"
    "\<forall>sc \<in> set (children sg). fst sc = off \<longrightarrow>
        set (requirements_or_empty (snd sc)) \<subseteq> set (rs @ ext)"
    unfolding ch by blast
  have "(off, scd) \<in> set (children sg)" using scd(1) by (rule map_of_SomeD)
  then have "set (requirements_or_empty scd) \<subseteq> set (rs @ ext)" using x'(4) by force
  then have e: "e \<in> set (rs @ ext)"
    using scd(2,3) by (auto simp: requirements_or_empty_def)
  then have "clean_child x' = x'" using x'(3) by (auto simp: clean_child_def)
  then have "map_of (children (sortChildren ?g)) off = Some x'"
    using x'(1) by (simp add: map_of_sortChildren)
  moreover have "x' = \<lparr>chance = chance cd, requirements = Some (rs @ ext)\<rparr>"
    using x'(2,3) by (cases x') simp
  moreover have "sortChildren ?g \<in> set (build_output lc manual st)"
    using mg(1) by (simp add: build_output_def)
  moreover have "parents (sortChildren ?g) = sort_pair (parents mg)"
    by (simp add: parents_sortChildren parents_mergeGroup)
  ultimately show ?thesis using e by blast
qed

text \<open>
  Claim C3, as stated, fails where the chance of the relation is the chance of a
  conditional override entry: the manual index has the key without the conditions (line
  315), so the relation \<open>x, y \<rightarrow> z\<close> at chance 20 with temperature HOT, against the
  override \<open>z\<close> at 0.2 with the requirement \<open>{biome: [Hell]}\<close>, is dropped as already
  in the manual mutations, although its condition set is new.
\<close>

theorem new_condition_same_chance_dropped:
  "buildBreedingPairsJsonc code_unit_compare {''m:x'', ''m:y'', ''m:z''}
     [\<lparr>parent1 = Some ''m:x'', parent2 = Some ''m:y'', offspring = Some ''m:z'', mchance = 20,
       conditions = Some [(''temperature'', JStrs [''HOT''])]\<rparr>]
     [\<lparr>parents = (''m:x'', ''m:y''),
       children = [(''m:z'', \<lparr>chance = round_double (1 / 5),
                      requirements = Some [[(''biome'', JStrs [''Hell''])]]\<rparr>)]\<rparr>]
   = Inr ([\<lparr>parents = (''m:x'', ''m:y''),
            children = [(''m:z'', \<lparr>chance = round_double (1 / 5),
                           requirements = Some [[(''biome'', JStrs [''Hell''])]]\<rparr>)]\<rparr>],
          [Skip (Some ''m:z'') True])"
  by (simp add: run_defs)

text \<open>
  Claim C3, amended. Let the override file have one group per parent pair, and let the
  run not raise. Let a relation of the run have known identifiers, let the override group
  under its sorted parent pair have an entry for its offspring with a requirement list
  \<open>rs\<close> and the default chance \<open>d\<close>, let its base key be outside the manual index,
  let no earlier relation of the run have its full key, and let the entry built from it
  (the recognized conditions, and the chance when it is beyond the threshold) have a
  field. Then the output has a group under the sorted pair whose entry for the offspring
  has the default chance \<open>d\<close> and the requirement list \<open>rs\<close> followed by added
  entries, and the entry of the relation is in that list (when \<open>rs\<close> has it
  already, the merge into the override group adds no second copy). The entry has a
  \<open>chance\<close> field, holding chance / 100, exactly when the code's test
  \<^verbatim>\<open>Math.abs(chance / 100 - d) > 0.0001\<close> holds, in the arithmetic of doubles. With the
  override \<open>{x, y} \<rightarrow> z\<close> at 0.2 with an empty requirement list and the relation
  \<open>x, y \<rightarrow> z\<close> at chance 5 with biome Hell, the output entry of \<open>z\<close> has the
  default chance 0.2 and the one requirement \<open>{biome: [Hell], chance: 0.05}\<close>.
\<close>

theorem requirement_appended_to_entry:
  "(buildBreedingPairsJsonc lc bees (pre @ m # rest) manualMutations = Inr (out, skipped) \<and>
    present (parent1 m) = Some p1 \<and> present (parent2 m) = Some p2 \<and>
    present (offspring m) = Some off \<and> p1 \<in> bees \<and> p2 \<in> bees \<and> off \<in> bees \<and>
    distinct (map (\<lambda>g. sort_pair (parents g)) manualMutations) \<and>
    mg \<in> set manualMutations \<and> sort_pair (parents mg) = sort_pair (p1, p2) \<and>
    map_of (children mg) off = Some cd \<and> requirements cd = Some rs \<and>
    (sort_pair (p1, p2), off, JNum (fdiv (mchance m) 100))
       \<notin> set (manualMutationSet manualMutations) \<and>
    full_key m \<notin> full_key ` set pre \<and>
    condition_fields (conditions m) @ chance_field (fdiv (mchance m) 100) (chance cd) \<noteq> []
    \<longrightarrow>
      (\<exists>g \<in> set out. parents g = sort_pair (p1, p2) \<and>
         (\<exists>ext. map_of (children g) off
                   = Some \<lparr>chance = chance cd, requirements = Some (rs @ ext)\<rparr> \<and>
                 condition_fields (conditions m) @
                   chance_field (fdiv (mchance m) 100) (chance cd) \<in> set (rs @ ext))) \<and>
      map_of (condition_fields (conditions m) @ chance_field (fdiv (mchance m) 100) (chance cd))
          ''chance'' =
        (if \<bar>fsub (fdiv (mchance m) 100) (chance cd)\<bar> > round_double (1 / 10000)
         then Some (JNum (fdiv (mchance m) 100)) else None)) \<and>
   buildBreedingPairsJsonc lc {''m:x'', ''m:y'', ''m:z''}
     [\<lparr>parent1 = Some ''m:x'', parent2 = Some ''m:y'', offspring = Some ''m:z'', mchance = 5,
       conditions = Some [(''biome'', JStrs [''Hell''])]\<rparr>]
     [\<lparr>parents = (''m:x'', ''m:y''),
       children = [(''m:z'', \<lparr>chance = round_double (1 / 5), requirements = Some []\<rparr>)]\<rparr>]
   = Inr ([\<lparr>parents = (''m:x'', ''m:y''),
            children = [(''m:z'', \<lparr>chance = round_double (1 / 5),
               requirements = Some [[(''biome'', JStrs [''Hell'']),
                                     (''chance'', JNum (round_double (1 / 20)))]]\<rparr>)]\<rparr>], [])"
proof (intro conjI impI)
  assume a: "buildBreedingPairsJsonc lc bees (pre @ m # rest) manualMutations = Inr (out, skipped) \<and>
    present (parent1 m) = Some p1 \<and> present (parent2 m) = Some p2 \<and>
    present (offspring m) = Some off \<and> p1 \<in> bees \<and> p2 \<in> bees \<and> off \<in> bees \<and>
    distinct (map (\<lambda>g. sort_pair (parents g)) manualMutations) \<and>
    mg \<in> set manualMutations \<and> sort_pair (parents mg) = sort_pair (p1, p2) \<and>
    map_of (children mg) off = Some cd \<and> requirements cd = Some rs \<and>
    (sort_pair (p1, p2), off, JNum (fdiv (mchance m) 100))
       \<notin> set (manualMutationSet manualMutations) \<and>
    full_key m \<notin> full_key ` set pre \<and>
    condition_fields (conditions m) @ chance_field (fdiv (mchance m) 100) (chance cd) \<noteq> []"
  let ?e = "condition_fields (conditions m) @ chance_field (fdiv (mchance m) 100) (chance cd)"
  from a obtain st where st: "processMutations bees (manualMutationSet manualMutations)
        (initial_state manualMutations) (pre @ m # rest) = Inr st"
    and out: "out = build_output lc manualMutations st"
    by (auto simp: buildBreedingPairsJsonc_def split: sum.splits)
  have pk: "sort_pair (parents mg) = sort_pair (p1, p2)" using a by simp
  have "entry_state (initial_state manualMutations) (sort_pair (parents mg)) off (chance cd) rs {}"
    using a by (intro entry_state_initial) simp_all
  then have init: "entry_state (initial_state manualMutations) (sort_pair (p1, p2)) off
                     (chance cd) rs {}"
    by (simp only: pk)
  have "entry_state st (sort_pair (p1, p2)) off (chance cd) rs {?e}"
    using a by (intro entry_state_run[OF st init]) simp_all
  then have "entry_state st (sort_pair (parents mg)) off (chance cd) rs {?e}"
    by (simp only: pk)
  from entry_in_output[OF this, of manualMutations lc] a
  show "\<exists>g \<in> set out. parents g = sort_pair (p1, p2) \<and>
         (\<exists>ext. map_of (children g) off
                   = Some \<lparr>chance = chance cd, requirements = Some (rs @ ext)\<rparr> \<and>
                 ?e \<in> set (rs @ ext))"
    unfolding out pk by simp
next
  show "map_of (condition_fields (conditions m) @ chance_field (fdiv (mchance m) 100) (chance cd))
          ''chance'' =
        (if \<bar>fsub (fdiv (mchance m) 100) (chance cd)\<bar> > round_double (1 / 10000)
         then Some (JNum (fdiv (mchance m) 100)) else None)"
    by (rule map_of_mutationEntry_chance)
next
  show "buildBreedingPairsJsonc lc {''m:x'', ''m:y'', ''m:z''}
     [\<lparr>parent1 = Some ''m:x'', parent2 = Some ''m:y'', offspring = Some ''m:z'', mchance = 5,
       conditions = Some [(''biome'', JStrs [''Hell''])]\<rparr>]
     [\<lparr>parents = (''m:x'', ''m:y''),
       children = [(''m:z'', \<lparr>chance = round_double (1 / 5), requirements = Some []\<rparr>)]\<rparr>]
   = Inr ([\<lparr>parents = (''m:x'', ''m:y''),
            children = [(''m:z'', \<lparr>chance = round_double (1 / 5),
               requirements = Some [[(''biome'', JStrs [''Hell'']),
                                     (''chance'', JNum (round_double (1 / 20)))]]\<rparr>)]\<rparr>], [])"
    by (simp add: run_defs)
qed

text \<open>
  The theorem on a run in which the entry of the relation is one that the override entry
  has already: against the override \<open>z\<close> at 0.2 with the requirement
  \<open>{biome: [Hell]}\<close>, the relation at chance 20.001 with biome Hell is not in the
  index (0.20001 is not 0.2), its chance is within the threshold, and the entry
  \<open>{biome: [Hell]}\<close> that the run pushes is not added a second time by the merge.
\<close>

theorem requirement_appended_to_entry_witness:
  "buildBreedingPairsJsonc code_unit_compare {''m:x'', ''m:y'', ''m:z''}
     [\<lparr>parent1 = Some ''m:y'', parent2 = Some ''m:x'', offspring = Some ''m:z'',
       mchance = round_double (20001 / 1000),
       conditions = Some [(''biome'', JStrs [''Hell''])]\<rparr>]
     [\<lparr>parents = (''m:x'', ''m:y''),
       children = [(''m:z'', \<lparr>chance = round_double (1 / 5),
                      requirements = Some [[(''biome'', JStrs [''Hell''])]]\<rparr>)]\<rparr>]
   = Inr ([\<lparr>parents = (''m:x'', ''m:y''),
            children = [(''m:z'', \<lparr>chance = round_double (1 / 5),
                           requirements = Some [[(''biome'', JStrs [''Hell''])]]\<rparr>)]\<rparr>], []) \<and>
   (\<exists>g \<in> set [\<lparr>parents = (''m:x'', ''m:y''),
                children = [(''m:z'', \<lparr>chance = round_double (1 / 5),
                               requirements = Some [[(''biome'', JStrs [''Hell''])]]\<rparr>)]\<rparr>].
      parents g = (''m:x'', ''m:y'') \<and>
      (\<exists>ext. map_of (children g) ''m:z''
                = Some \<lparr>chance = round_double (1 / 5),
                        requirements = Some ([[(''biome'', JStrs [''Hell''])]] @ ext)\<rparr> \<and>
              [(''biome'', JStrs [''Hell''])] \<in> set ([[(''biome'', JStrs [''Hell''])]] @ ext)))"
proof -
  let ?m = "\<lparr>parent1 = Some ''m:y'', parent2 = Some ''m:x'', offspring = Some ''m:z'',
             mchance = round_double (20001 / 1000),
             conditions = Some [(''biome'', JStrs [''Hell''])]\<rparr>"
  let ?cd = "\<lparr>chance = round_double (1 / 5),
              requirements = Some [[(''biome'', JStrs [''Hell''])]]\<rparr>"
  let ?mg = "\<lparr>parents = (''m:x'', ''m:y''), children = [(''m:z'', ?cd)]\<rparr>"
  let ?bees = "{''m:x'', ''m:y'', ''m:z''}"
  have run: "buildBreedingPairsJsonc code_unit_compare ?bees [?m] [?mg] = Inr ([?mg], [])"
    by (simp add: run_defs chance_20001_against_20[unfolded fdiv_def]
                  chance_20001_not_20[unfolded fdiv_def])
  have pk: "sort_pair (''m:y'', ''m:x'') = (''m:x'', ''m:y'')"
    "sort_pair (''m:x'', ''m:y'') = (''m:x'', ''m:y'')"
    by (simp_all add: sort_pair_def)
  have idx: "((''m:x'', ''m:y''), ''m:z'', JNum (fdiv (round_double (20001 / 1000)) 100))
               \<notin> set (manualMutationSet [?mg])"
    by (simp add: manualMutationSet_def child_keys_def requirement_chance_def
                  requirements_or_empty_def chance_20001_not_20 pk)
  have e: "condition_fields (Some [(''biome'', JStrs [''Hell''])]) @
             chance_field (fdiv (round_double (20001 / 1000)) 100) (round_double (1 / 5))
           = [(''biome'', JStrs [''Hell''])]"
    by (simp add: condition_fields_def copy_if_def flag_if_def block_field_def chance_field_def
                  chance_20001_against_20)
  have hyp: "buildBreedingPairsJsonc code_unit_compare ?bees ([] @ ?m # []) [?mg]
               = Inr ([?mg], []) \<and>
    present (parent1 ?m) = Some ''m:y'' \<and> present (parent2 ?m) = Some ''m:x'' \<and>
    present (offspring ?m) = Some ''m:z'' \<and> ''m:y'' \<in> ?bees \<and> ''m:x'' \<in> ?bees \<and>
    ''m:z'' \<in> ?bees \<and>
    distinct (map (\<lambda>g. sort_pair (parents g)) [?mg]) \<and>
    ?mg \<in> set [?mg] \<and> sort_pair (parents ?mg) = sort_pair (''m:y'', ''m:x'') \<and>
    map_of (children ?mg) ''m:z'' = Some ?cd \<and>
    requirements ?cd = Some [[(''biome'', JStrs [''Hell''])]] \<and>
    (sort_pair (''m:y'', ''m:x''), ''m:z'', JNum (fdiv (mchance ?m) 100))
       \<notin> set (manualMutationSet [?mg]) \<and>
    full_key ?m \<notin> full_key ` set [] \<and>
    condition_fields (conditions ?m) @ chance_field (fdiv (mchance ?m) 100) (chance ?cd) \<noteq> []"
    using run idx by (simp add: present_def pk e)
  note c = mp[OF conjunct1[OF requirement_appended_to_entry[of code_unit_compare ?bees "[]" ?m "[]"
         "[?mg]" "[?mg]" "[]" "''m:y''" "''m:x''" "''m:z''" ?mg ?cd
         "[[(''biome'', JStrs [''Hell''])]]"]] hyp]
  from c[THEN conjunct1] show ?thesis using run by (simp add: pk e)
qed

text \<open>
  On an override entry without a \<^verbatim>\<open>requirements\<close> property the push of line 428 raises:
  the same run with such an entry ends in a \<^verbatim>\<open>TypeError\<close>.
\<close>

lemma missing_requirements_list_raises:
  "buildBreedingPairsJsonc lc {''m:x'', ''m:y'', ''m:z''}
     [\<lparr>parent1 = Some ''m:x'', parent2 = Some ''m:y'', offspring = Some ''m:z'', mchance = 5,
       conditions = Some [(''biome'', JStrs [''Hell''])]\<rparr>]
     [\<lparr>parents = (''m:x'', ''m:y''),
       children = [(''m:z'', \<lparr>chance = round_double (1 / 5), requirements = None\<rparr>)]\<rparr>]
   = Inl TypeError"
  by (simp add: run_defs)

text \<open>
  Claim C4. Two relations that differ only in the order of their parents give one group,
  under the sorted parent pair. Wherever the reordered relation occurs after the first one
  in the run, the groups of the output are those of the run without it. When the manual
  groups have pairwise different parent pairs, no two groups of the output have the same
  parents, and when the relation is accepted (its identifiers are known and its base key
  is not in the manual index) the output has a group under its sorted parent pair.
\<close>

theorem parent_order_duplicate:
  "map_sum id fst (buildBreedingPairsJsonc lc bees
       (pre @ m # mid @ swap_parents m # post) manualMutations) =
   map_sum id fst (buildBreedingPairsJsonc lc bees (pre @ m # mid @ post) manualMutations) \<and>
   (\<forall>out skipped.
      buildBreedingPairsJsonc lc bees (pre @ m # mid @ swap_parents m # post) manualMutations
        = Inr (out, skipped) \<longrightarrow>
      distinct (map (\<lambda>g. sort_pair (parents g)) manualMutations) \<longrightarrow>
        distinct (map parents out) \<and>
        (\<forall>p1 p2 off.
           present (parent1 m) = Some p1 \<and> present (parent2 m) = Some p2 \<and>
           present (offspring m) = Some off \<and> p1 \<in> bees \<and> p2 \<in> bees \<and> off \<in> bees \<and>
           (sort_pair (p1, p2), off, JNum (fdiv (mchance m) 100))
              \<notin> set (manualMutationSet manualMutations)
           \<longrightarrow> sort_pair (p1, p2) \<in> parents ` set out))"
proof (intro conjI allI impI)
  show "map_sum id fst (buildBreedingPairsJsonc lc bees
          (pre @ m # mid @ swap_parents m # post) manualMutations) =
        map_sum id fst (buildBreedingPairsJsonc lc bees (pre @ m # mid @ post) manualMutations)"
    by (rule second_occurrence_output)
next
  fix out skipped
  assume "buildBreedingPairsJsonc lc bees (pre @ m # mid @ swap_parents m # post) manualMutations
            = Inr (out, skipped)"
    and "distinct (map (\<lambda>g. sort_pair (parents g)) manualMutations)"
  then show "distinct (map parents out)" by (rule distinct_output)
next
  fix out skipped p1 p2 off
  assume run: "buildBreedingPairsJsonc lc bees (pre @ m # mid @ swap_parents m # post) manualMutations
            = Inr (out, skipped)"
    and m: "present (parent1 m) = Some p1 \<and> present (parent2 m) = Some p2 \<and>
           present (offspring m) = Some off \<and> p1 \<in> bees \<and> p2 \<in> bees \<and> off \<in> bees \<and>
           (sort_pair (p1, p2), off, JNum (fdiv (mchance m) 100))
              \<notin> set (manualMutationSet manualMutations)"
  show "sort_pair (p1, p2) \<in> parents ` set out"
    by (rule accepted_group_in_output[OF run refl, of p1 p2 off]) (use m in simp_all)
qed

theorem parent_order_duplicate_witness:
  "map_sum id fst (buildBreedingPairsJsonc code_unit_compare {''m:a'', ''m:b'', ''m:c''}
      [\<lparr>parent1 = Some ''m:b'', parent2 = Some ''m:a'', offspring = Some ''m:c'', mchance = 15,
         conditions = Some [(''biome'', JStrs [''HELL''])]\<rparr>,
       \<lparr>parent1 = Some ''m:a'', parent2 = Some ''m:b'', offspring = Some ''m:c'', mchance = 15,
         conditions = Some [(''biome'', JStrs [''HELL''])]\<rparr>] []) =
   map_sum id fst (buildBreedingPairsJsonc code_unit_compare {''m:a'', ''m:b'', ''m:c''}
      [\<lparr>parent1 = Some ''m:b'', parent2 = Some ''m:a'', offspring = Some ''m:c'', mchance = 15,
         conditions = Some [(''biome'', JStrs [''HELL''])]\<rparr>] []) \<and>
   buildBreedingPairsJsonc code_unit_compare {''m:a'', ''m:b'', ''m:c''}
      [\<lparr>parent1 = Some ''m:b'', parent2 = Some ''m:a'', offspring = Some ''m:c'', mchance = 15,
         conditions = Some [(''biome'', JStrs [''HELL''])]\<rparr>,
       \<lparr>parent1 = Some ''m:a'', parent2 = Some ''m:b'', offspring = Some ''m:c'', mchance = 15,
         conditions = Some [(''biome'', JStrs [''HELL''])]\<rparr>] []
     = Inr ([\<lparr>parents = (''m:a'', ''m:b''),
              children = [(''m:c'', \<lparr>chance = round_double (3 / 20),
                 requirements = Some [[(''biome'', JStrs [''HELL''])]]\<rparr>)]\<rparr>], []) \<and>
   distinct (map parents [\<lparr>parents = (''m:a'', ''m:b''),
              children = [(''m:c'', \<lparr>chance = round_double (3 / 20),
                 requirements = Some [[(''biome'', JStrs [''HELL''])]]\<rparr>)]\<rparr>]) \<and>
   (''m:a'', ''m:b'') \<in> parents ` set [\<lparr>parents = (''m:a'', ''m:b''),
              children = [(''m:c'', \<lparr>chance = round_double (3 / 20),
                 requirements = Some [[(''biome'', JStrs [''HELL''])]]\<rparr>)]\<rparr>]"
  using parent_order_duplicate[of code_unit_compare "{''m:a'', ''m:b'', ''m:c''}" "[]"
      "\<lparr>parent1 = Some ''m:b'', parent2 = Some ''m:a'', offspring = Some ''m:c'', mchance = 15,
         conditions = Some [(''biome'', JStrs [''HELL''])]\<rparr>" "[]" "[]" "[]"]
  by (simp add: run_defs swap_parents_def)

text \<open>
  Claim C5. No two requirement entries under one offspring are to be identical. The
  duplicate filter of the run compares the serialized conditions as extracted, the entry
  keeps the recognized fields only: two relations \<open>x, y \<rightarrow> z\<close> at chance 10, one with
  \<open>{biome: [HELL], time: night}\<close> and one with \<open>{biome: [HELL], time: day}\<close> (the
  MagicBees parser writes \<open>time\<close>), have different keys and both append the entry
  \<open>{biome: [HELL]}\<close>.
\<close>

theorem identical_requirements_in_new_group:
  "buildBreedingPairsJsonc lc {''m:x'', ''m:y'', ''m:z''}
     [\<lparr>parent1 = Some ''m:x'', parent2 = Some ''m:y'', offspring = Some ''m:z'', mchance = 10,
       conditions = Some [(''biome'', JStrs [''HELL'']), (''time'', JStr ''night'')]\<rparr>,
      \<lparr>parent1 = Some ''m:x'', parent2 = Some ''m:y'', offspring = Some ''m:z'', mchance = 10,
       conditions = Some [(''biome'', JStrs [''HELL'']), (''time'', JStr ''day'')]\<rparr>]
     []
   = Inr ([\<lparr>parents = (''m:x'', ''m:y''),
            children = [(''m:z'', \<lparr>chance = round_double (1 / 10),
               requirements = Some [[(''biome'', JStrs [''HELL''])],
                                    [(''biome'', JStrs [''HELL''])]]\<rparr>)]\<rparr>], [])"
  by (simp add: run_defs)
text \<open>
  Claim C6, as stated, fails where an identifier is \<^verbatim>\<open>null\<close>: that branch (lines 270 to
  275) records \<open>inManual = False\<close> without looking at the manual index. Here the override
  has a conditional entry for \<open>m:z\<close>, the relation has no first parent and the offspring
  \<open>m:z\<close>, which normalizes to itself; the diagnostic says \<open>False\<close>.
\<close>

theorem null_identifier_not_in_manual:
  "buildBreedingPairsJsonc code_unit_compare {''m:x'', ''m:y'', ''m:z''}
     [\<lparr>parent1 = None, parent2 = Some ''m:y'', offspring = Some ''m:z'', mchance = 10,
       conditions = None\<rparr>]
     [\<lparr>parents = (''m:x'', ''m:y''),
       children = [(''m:z'', \<lparr>chance = round_double (1 / 5),
                      requirements = Some [[(''biome'', JStrs [''HELL''])]]\<rparr>)]\<rparr>]
   = Inr ([\<lparr>parents = (''m:x'', ''m:y''),
            children = [(''m:z'', \<lparr>chance = round_double (1 / 5),
                           requirements = Some [[(''biome'', JStrs [''HELL''])]]\<rparr>)]\<rparr>],
          [Skip (Some ''m:z'') False]) \<and>
   tryResolve (Some ''m:z'') = Some ''m:z''"
  by (simp add: run_defs)

text \<open>
  Claim C6, amended. A relation with a missing (null or empty) identifier, or with an
  identifier that is not a key of the bees map, never fails: the groups and the seen keys
  stay as they are and one diagnostic with the relation's offspring is appended. Its
  \<open>inManual\<close> is false when an identifier is missing. When all three are present, it is
  true if an override entry with at least one requirement has the normalized offspring as
  its key, and false if no override entry has.
\<close>

theorem unresolved_relation_skipped:
  assumes "\<forall>p1 p2 off. present (parent1 m) = Some p1 \<and> present (parent2 m) = Some p2 \<and>
             present (offspring m) = Some off \<longrightarrow> \<not> (p1 \<in> bees \<and> p2 \<in> bees \<and> off \<in> bees)"
  shows "\<exists>b. processMutation bees (manualMutationSet manualMutations) st m =
               Inr (st\<lparr>skippedMutations := skippedMutations st @ [Skip (offspring m) b]\<rparr>) \<and>
             (present (parent1 m) = None \<or> present (parent2 m) = None \<or>
              present (offspring m) = None \<longrightarrow> \<not> b) \<and>
             (present (parent1 m) \<noteq> None \<and> present (parent2 m) \<noteq> None \<and>
              present (offspring m) \<noteq> None \<and>
              (\<exists>g \<in> set manualMutations. \<exists>sc \<in> set (children g).
                 requirements_or_empty (snd sc) \<noteq> [] \<and> tryResolve (offspring m) = Some (fst sc))
                \<longrightarrow> b) \<and>
             ((\<forall>g \<in> set manualMutations. \<forall>sc \<in> set (children g).
                 tryResolve (offspring m) \<noteq> Some (fst sc)) \<longrightarrow> \<not> b)"
proof (cases "present (parent1 m) = None \<or> present (parent2 m) = None \<or> present (offspring m) = None")
  case True
  then have "processMutation bees (manualMutationSet manualMutations) st m =
               Inr (st\<lparr>skippedMutations := skippedMutations st @ [Skip (offspring m) False]\<rparr>)"
    by (auto simp: processMutation_def skip_with_def split: option.splits)
  then show ?thesis using True by auto
next
  case False
  then obtain p1 p2 off where p: "present (parent1 m) = Some p1" "present (parent2 m) = Some p2"
    "present (offspring m) = Some off" by auto
  with assms have nb: "\<not> (p1 \<in> bees \<and> p2 \<in> bees \<and> off \<in> bees)" by blast
  let ?b = "checkIfInManualMutations m (manualMutationSet manualMutations)"
  have run: "processMutation bees (manualMutationSet manualMutations) st m =
               Inr (st\<lparr>skippedMutations := skippedMutations st @ [Skip (offspring m) ?b]\<rparr>)"
    using p nb by (auto simp: processMutation_def skip_with_def)
  have b: "?b = (\<exists>off'. tryResolve (offspring m) = Some off' \<and>
                 (\<exists>g \<in> set manualMutations. \<exists>sc \<in> set (children g).
                    requirements_or_empty (snd sc) \<noteq> [] \<and> fst sc = off'))"
    by (simp add: checkIfInManualMutations_def inManual_index split: option.splits)
  have a1: "(\<exists>g \<in> set manualMutations. \<exists>sc \<in> set (children g).
                 requirements_or_empty (snd sc) \<noteq> [] \<and> tryResolve (offspring m) = Some (fst sc))
          \<longrightarrow> ?b"
    unfolding b by blast
  have a2: "(\<forall>g \<in> set manualMutations. \<forall>sc \<in> set (children g).
                 tryResolve (offspring m) \<noteq> Some (fst sc)) \<longrightarrow> \<not> ?b"
    unfolding b by blast
  show ?thesis
  proof (intro exI[of _ ?b] conjI)
    show "processMutation bees (manualMutationSet manualMutations) st m =
               Inr (st\<lparr>skippedMutations := skippedMutations st @ [Skip (offspring m) ?b]\<rparr>)"
      by (rule run)
    show "present (parent1 m) = None \<or> present (parent2 m) = None \<or>
              present (offspring m) = None \<longrightarrow> \<not> ?b"
      using p by simp
    show "present (parent1 m) \<noteq> None \<and> present (parent2 m) \<noteq> None \<and>
              present (offspring m) \<noteq> None \<and>
              (\<exists>g \<in> set manualMutations. \<exists>sc \<in> set (children g).
                 requirements_or_empty (snd sc) \<noteq> [] \<and> tryResolve (offspring m) = Some (fst sc))
                \<longrightarrow> ?b"
      using a1 by blast
    show "(\<forall>g \<in> set manualMutations. \<forall>sc \<in> set (children g).
                 tryResolve (offspring m) \<noteq> Some (fst sc)) \<longrightarrow> \<not> ?b"
      by (rule a2)
  qed
qed

theorem unresolved_relation_skipped_witness:
  "processMutation {''m:x'', ''m:y''}
     (manualMutationSet
        [\<lparr>parents = (''m:x'', ''m:y''),
          children = [(''m:z'', \<lparr>chance = round_double (1 / 5),
                         requirements = Some [[(''biome'', JStrs [''HELL''])]]\<rparr>)]\<rparr>])
     \<lparr>mutationGroups = [], seenMutationKeys = [], skippedMutations = []\<rparr>
     \<lparr>parent1 = Some ''m:x'', parent2 = Some ''m:q'', offspring = Some ''M:_Z '', mchance = 10,
       conditions = None\<rparr>
   = Inr \<lparr>mutationGroups = [], seenMutationKeys = [],
          skippedMutations = [Skip (Some ''M:_Z '') True]\<rparr> \<and>
   tryResolve (Some ''M:_Z '') = Some ''m:z''"
  using unresolved_relation_skipped[of
     "\<lparr>parent1 = Some ''m:x'', parent2 = Some ''m:q'', offspring = Some ''M:_Z '', mchance = 10,
       conditions = None\<rparr>" "{''m:x'', ''m:y''}"
     "[\<lparr>parents = (''m:x'', ''m:y''),
          children = [(''m:z'', \<lparr>chance = round_double (1 / 5),
                         requirements = Some [[(''biome'', JStrs [''HELL''])]]\<rparr>)]\<rparr>]"
     "\<lparr>mutationGroups = [], seenMutationKeys = [], skippedMutations = []\<rparr>"]
  by (simp add: run_defs)

text \<open>
  Claim C9. Every group of the final output has its two parents in sorted order, the
  groups loaded from the manual file included: the output starts with the manual groups,
  each with its parents sorted in place, whatever their order in the file.
\<close>

theorem output_parents_sorted:
  assumes "buildBreedingPairsJsonc lc bees mutations manualMutations = Inr (output, skipped)"
  shows "(\<forall>g \<in> set output. fst (parents g) \<le> snd (parents g)) \<and>
         map parents (take (length manualMutations) output) =
           map (\<lambda>g. sort_pair (parents g)) manualMutations"
  using assms
  by (auto simp: buildBreedingPairsJsonc_def build_output_sorted build_output_manual_prefix split: sum.splits)

theorem output_parents_sorted_witness:
  "buildBreedingPairsJsonc code_unit_compare {''m:a'', ''m:b'', ''m:c'', ''m:d''}
      [\<lparr>parent1 = Some ''m:d'', parent2 = Some ''m:a'', offspring = Some ''m:c'', mchance = 15,
         conditions = None\<rparr>]
      [\<lparr>parents = (''m:b'', ''m:a''), children = [(''m:c'', \<lparr>chance = round_double (1 / 5), requirements = None\<rparr>)]\<rparr>]
    = Inr ([\<lparr>parents = (''m:a'', ''m:b''), children = [(''m:c'', \<lparr>chance = round_double (1 / 5), requirements = None\<rparr>)]\<rparr>,
            \<lparr>parents = (''m:a'', ''m:d''), children = [(''m:c'', \<lparr>chance = round_double (3 / 20), requirements = None\<rparr>)]\<rparr>], []) \<and>
   list_all (\<lambda>g. fst (parents g) \<le> snd (parents g))
     [\<lparr>parents = (''m:a'', ''m:b''), children = [(''m:c'', \<lparr>chance = round_double (1 / 5), requirements = None\<rparr>)]\<rparr>,
      \<lparr>parents = (''m:a'', ''m:d''), children = [(''m:c'', \<lparr>chance = round_double (3 / 20), requirements = None\<rparr>)]\<rparr>] \<and>
   map parents (take 1
     [\<lparr>parents = (''m:a'', ''m:b''), children = [(''m:c'', \<lparr>chance = round_double (1 / 5), requirements = None\<rparr>)]\<rparr>,
      \<lparr>parents = (''m:a'', ''m:d''), children = [(''m:c'', \<lparr>chance = round_double (3 / 20), requirements = None\<rparr>)]\<rparr>])
     = [(''m:a'', ''m:b'')]"
proof -
  have run: "buildBreedingPairsJsonc code_unit_compare {''m:a'', ''m:b'', ''m:c'', ''m:d''}
      [\<lparr>parent1 = Some ''m:d'', parent2 = Some ''m:a'', offspring = Some ''m:c'', mchance = 15,
         conditions = None\<rparr>]
      [\<lparr>parents = (''m:b'', ''m:a''), children = [(''m:c'', \<lparr>chance = round_double (1 / 5), requirements = None\<rparr>)]\<rparr>]
    = Inr ([\<lparr>parents = (''m:a'', ''m:b''), children = [(''m:c'', \<lparr>chance = round_double (1 / 5), requirements = None\<rparr>)]\<rparr>,
            \<lparr>parents = (''m:a'', ''m:d''), children = [(''m:c'', \<lparr>chance = round_double (3 / 20), requirements = None\<rparr>)]\<rparr>], [])"
    by (simp add: run_defs)
  from output_parents_sorted[OF run] run show ?thesis
    by (simp add: sort_pair_def)
qed




section \<open>Shortest paths: properties\<close>

lemmas sp_defs = beeDepths_def buildShortestPathMutations_def mutationGraph_def add_group_def
  add_candidates_def candidates_of_def requirement_candidate_def requirements_or_empty_def
  baseBees_def beesWithMutations_def initialDepth_def visit_def reachable_candidate_def
  maxParentDepth_def pick_def chosen_def at_depth_def set_child_def child_of_candidate_def sort_pair_def
  sort_by_def compare_sgroups_def sort_schildren_def clean_schild_def code_unit_compare_def Let_def

subsection \<open>The graph\<close>

lemma obj_set_new: "k \<notin> fst ` set kvs \<Longrightarrow> obj_set k v kvs = kvs @ [(k, v)]"
  by (induction kvs) auto

lemma keys_add_candidates:
  "fst ` set (add_candidates graph off cands) = insert off (fst ` set graph)"
  by (auto simp: add_candidates_def keys_obj_set split: option.splits)

lemma distinct_add_candidates:
  "distinct (map fst graph) \<Longrightarrow> distinct (map fst (add_candidates graph off cands))"
  by (auto simp: add_candidates_def distinct_obj_set map_of_eq_None_iff split: option.splits)

lemma add_group_keys:
  "distinct (map fst graph) \<Longrightarrow>
     distinct (map fst (foldl (\<lambda>gr oc. add_candidates gr (fst oc) (f oc)) graph cs)) \<and>
     fst ` set (foldl (\<lambda>gr oc. add_candidates gr (fst oc) (f oc)) graph cs)
       = fst ` set graph \<union> fst ` set cs"
proof (induction cs arbitrary: graph)
  case Nil
  then show ?case by simp
next
  case (Cons oc cs)
  have "distinct (map fst (add_candidates graph (fst oc) (f oc)))"
    using Cons.prems by (rule distinct_add_candidates)
  from Cons.IH[OF this] show ?case by (simp add: keys_add_candidates)
qed

lemma mutationGraph_keys_aux:
  "distinct (map fst graph) \<Longrightarrow>
     distinct (map fst (foldl add_group graph gs)) \<and>
     fst ` set (foldl add_group graph gs) = fst ` set graph \<union> set (beesWithMutations gs)"
proof (induction gs arbitrary: graph)
  case Nil
  then show ?case by (simp add: beesWithMutations_def)
next
  case (Cons g gs)
  have g: "distinct (map fst (add_group graph g))"
    "fst ` set (add_group graph g) = fst ` set graph \<union> fst ` set (children g)"
    using add_group_keys[OF Cons.prems, of "\<lambda>oc. candidates_of (parents g) (snd oc)" "children g"]
    by (simp_all add: add_group_def)
  from Cons.IH[OF g(1)] g(2) show ?case
    by (auto simp: beesWithMutations_def)
qed

lemma distinct_mutationGraph: "distinct (map fst (mutationGraph gs))"
  using mutationGraph_keys_aux[of "[]" gs] by (simp add: mutationGraph_def)

lemma keys_mutationGraph: "fst ` set (mutationGraph gs) = set (beesWithMutations gs)"
  using mutationGraph_keys_aux[of "[]" gs] by (simp add: mutationGraph_def)

lemma wf_candidates_of: "c \<in> set (candidates_of ps cd) \<Longrightarrow> well_formed_candidate c"
  by (auto simp: candidates_of_def requirement_candidate_def well_formed_candidate_def split: if_splits)

lemma wf_add_candidates:
  assumes "\<forall>e \<in> set graph. \<forall>c \<in> set (snd e). well_formed_candidate c"
    and "\<forall>c \<in> set cands. well_formed_candidate c"
  shows "\<forall>e \<in> set (add_candidates graph off cands). \<forall>c \<in> set (snd e). well_formed_candidate c"
proof (cases "map_of graph off")
  case None
  then show ?thesis using assms by (auto simp: add_candidates_def)
next
  case (Some old)
  then have "(off, old) \<in> set graph" by (rule map_of_SomeD)
  then have "\<forall>c \<in> set (old @ cands). well_formed_candidate c"
    using assms by auto
  then show ?thesis
    using assms(1) Some set_obj_set[of off "old @ cands" graph]
    by (auto simp: add_candidates_def)
qed

lemma wf_add_group:
  assumes "\<forall>e \<in> set graph. \<forall>c \<in> set (snd e). well_formed_candidate c"
  shows "\<forall>e \<in> set (add_group graph g). \<forall>c \<in> set (snd e). well_formed_candidate c"
proof -
  have "\<forall>e \<in> set (foldl (\<lambda>gr oc. add_candidates gr (fst oc) (candidates_of (parents g) (snd oc)))
                       graph cs). \<forall>c \<in> set (snd e). well_formed_candidate c" for cs
    using assms
  proof (induction cs arbitrary: graph)
    case Nil
    then show ?case by simp
  next
    case (Cons oc cs)
    have "\<forall>e \<in> set (add_candidates graph (fst oc) (candidates_of (parents g) (snd oc))).
            \<forall>c \<in> set (snd e). well_formed_candidate c"
      using Cons.prems by (intro wf_add_candidates) (auto dest: wf_candidates_of)
    from Cons.IH[OF this] show ?case by simp
  qed
  then show ?thesis by (simp add: add_group_def)
qed

lemma wf_mutationGraph:
  "\<forall>e \<in> set (mutationGraph gs). \<forall>c \<in> set (snd e). well_formed_candidate c"
proof -
  have "\<forall>e \<in> set (foldl add_group graph gs). \<forall>c \<in> set (snd e). well_formed_candidate c"
    if "\<forall>e \<in> set graph. \<forall>c \<in> set (snd e). well_formed_candidate c" for graph
    using that
  proof (induction gs arbitrary: graph)
    case Nil
    then show ?case by simp
  next
    case (Cons g gs)
    from Cons.IH[OF wf_add_group[OF Cons.prems]] show ?case by simp
  qed
  from this[of "[]"] show ?thesis by (simp add: mutationGraph_def)
qed

subsection \<open>The depths\<close>

lemma at_depth_mono:
  assumes "at_depth d n c" "d \<subseteq>\<^sub>m d'"
  shows "at_depth d' n c"
proof -
  from assms(1) obtain d1 d2 where d: "d (fst (cand_parents c)) = Some d1"
    "d (snd (cand_parents c)) = Some d2" "max d1 d2 + 1 = n"
    by (auto simp: at_depth_def reachable_candidate_def maxParentDepth_def)
  then have "d' (fst (cand_parents c)) = Some d1" "d' (snd (cand_parents c)) = Some d2"
    using assms(2) by (auto simp: map_le_def dom_def)
  then show ?thesis using d(3)
    by (simp add: at_depth_def reachable_candidate_def maxParentDepth_def)
qed

lemma visit_cases:
  obtains (same) "visit dq e = dq"
  | (assign) c where "fst dq (fst e) = None" "c \<in> set (snd e)" "reachable_candidate (fst dq) c"
      "visit dq e = ((fst dq)(fst e \<mapsto> maxParentDepth (fst dq) c + 1), snd dq @ [fst e])"
proof (cases "visit dq e = dq")
  case True
  then show ?thesis by (rule same)
next
  case False
  then obtain c where c: "fst dq (fst e) = None" "find (reachable_candidate (fst dq)) (snd e) = Some c"
    "visit dq e = ((fst dq)(fst e \<mapsto> maxParentDepth (fst dq) c + 1), snd dq @ [fst e])"
    by (auto simp: visit_def split: option.splits if_splits)
  from c(2) have "c \<in> set (snd e)" "reachable_candidate (fst dq) c"
    by (auto simp: find_Some_iff)
  then show ?thesis using c by (intro assign[of c]) auto
qed

lemma visit_extends: "fst dq \<subseteq>\<^sub>m fst (visit dq e)"
  by (cases rule: visit_cases[of dq e]) (auto simp: map_le_def)

lemma justified_visit:
  assumes j: "justified graph base (fst dq)" and e: "e \<in> set graph"
    and dist: "distinct (map fst graph)"
  shows "justified graph base (fst (visit dq e))"
proof (cases rule: visit_cases[of dq e])
  case same
  then show ?thesis using j by simp
next
  case (assign c)
  let ?d = "fst dq" and ?n = "maxParentDepth (fst dq) c + 1"
  let ?d' = "(fst dq)(fst e \<mapsto> ?n)"
  have le: "?d \<subseteq>\<^sub>m ?d'" using assign(1) by (auto simp: map_le_def)
  have look: "map_of graph (fst e) = Some (snd e)"
  proof -
    have "(fst e, snd e) \<in> set graph" using e by simp
    with dist show ?thesis by (rule map_of_is_SomeI)
  qed
  have "at_depth ?d ?n c" using assign(3) by (simp add: at_depth_def)
  then have new: "at_depth ?d' ?n c" using le by (rule at_depth_mono)
  have "justified graph base ?d'"
    unfolding justified_def
  proof (intro allI impI)
    fix k n assume kn: "?d' k = Some n"
    show "case map_of graph k of None \<Rightarrow> k \<in> set base \<and> n = 0
          | Some cands \<Rightarrow> list_ex (at_depth ?d' n) cands"
    proof (cases "k = fst e")
      case True
      then have "n = ?n" using kn by simp
      then show ?thesis using True look new assign(2) by (auto simp: list_ex_iff)
    next
      case False
      then have "?d k = Some n" using kn by simp
      then have "case map_of graph k of None \<Rightarrow> k \<in> set base \<and> n = 0
          | Some cands \<Rightarrow> list_ex (at_depth ?d n) cands"
        using j by (simp add: justified_def)
      then show ?thesis
        using at_depth_mono[OF _ le] by (auto simp: list_ex_iff split: option.splits)
    qed
  qed
  then show ?thesis by (simp add: assign(4))
qed

lemma justified_scan:
  assumes "justified graph base (fst dq)" "set es \<subseteq> set graph" "distinct (map fst graph)"
  shows "justified graph base (fst (foldl visit dq es))"
  using assms
proof (induction es arbitrary: dq)
  case Nil
  then show ?case by simp
next
  case (Cons e es)
  have "justified graph base (fst (visit dq e))"
    using Cons.prems by (intro justified_visit) auto
  then show ?case using Cons.prems by (simp add: Cons.IH)
qed

lemma justified_bfs:
  assumes "justified graph base (fst dq)" "distinct (map fst graph)"
  shows "justified graph base (bfs graph dq)"
  using assms
proof (induction graph dq rule: bfs.induct)
  case (1 graph beeDepth)
  then show ?case by simp
next
  case (2 graph beeDepth current queue)
  have "justified graph base (fst (foldl visit (beeDepth, queue) graph))"
    using "2.prems" by (intro justified_scan) auto
  then show ?case using "2.prems" by (simp add: "2.IH")
qed

lemma initialDepth_lookup:
  "foldl (\<lambda>d bee. d(bee \<mapsto> 0)) d0 base k = (if k \<in> set base then Some 0 else d0 k)"
  by (induction base arbitrary: d0) auto

lemma initialDepth_eq: "initialDepth base k = (if k \<in> set base then Some 0 else None)"
  by (simp add: initialDepth_def initialDepth_lookup)

lemma justified_initial:
  "justified (mutationGraph gs) (baseBees bees gs) (initialDepth (baseBees bees gs))"
  unfolding justified_def
proof (intro allI impI)
  fix k n assume "initialDepth (baseBees bees gs) k = Some n"
  then have kn: "k \<in> set (baseBees bees gs)" "n = 0"
    by (auto simp: initialDepth_eq split: if_splits)
  then have "k \<notin> fst ` set (mutationGraph gs)"
    by (simp add: keys_mutationGraph baseBees_def)
  then have "map_of (mutationGraph gs) k = None"
    by (simp add: map_of_eq_None_iff)
  then show "case map_of (mutationGraph gs) k of None \<Rightarrow> k \<in> set (baseBees bees gs) \<and> n = 0
          | Some cands \<Rightarrow> list_ex (at_depth (initialDepth (baseBees bees gs)) n) cands"
    using kn by simp
qed

lemma justified_beeDepths:
  "justified (mutationGraph gs) (baseBees bees gs) (beeDepths bees gs)"
  unfolding beeDepths_def
  by (rule justified_bfs) (simp_all add: justified_initial distinct_mutationGraph)

text \<open>The loop only adds depths: a base bee keeps its depth 0.\<close>

lemma scan_extends: "fst dq \<subseteq>\<^sub>m fst (foldl visit dq es)"
proof (induction es arbitrary: dq)
  case Nil
  then show ?case by simp
next
  case (Cons e es)
  have "fst dq \<subseteq>\<^sub>m fst (visit dq e)" by (rule visit_extends)
  also have "\<dots> \<subseteq>\<^sub>m fst (foldl visit (visit dq e) es)" by (rule Cons.IH)
  finally show ?case by simp
qed

lemma bfs_extends: "fst dq \<subseteq>\<^sub>m bfs graph dq"
proof (induction graph dq rule: bfs.induct)
  case (1 graph beeDepth)
  then show ?case by simp
next
  case (2 graph beeDepth current queue)
  have "beeDepth \<subseteq>\<^sub>m fst (foldl visit (beeDepth, queue) graph)"
    using scan_extends[of "(beeDepth, queue)" graph] by simp
  also have "\<dots> \<subseteq>\<^sub>m bfs graph (foldl visit (beeDepth, queue) graph)" by (rule "2.IH")
  finally show ?case by simp
qed

lemma base_depth: "k \<in> set (baseBees bees gs) \<Longrightarrow> beeDepths bees gs k = Some 0"
proof -
  assume "k \<in> set (baseBees bees gs)"
  then have "initialDepth (baseBees bees gs) k = Some 0"
    by (simp add: initialDepth_eq)
  moreover have "initialDepth (baseBees bees gs) \<subseteq>\<^sub>m beeDepths bees gs"
    using bfs_extends[of "(initialDepth (baseBees bees gs), baseBees bees gs)" "mutationGraph gs"]
    by (simp add: beeDepths_def)
  ultimately show ?thesis by (auto simp: map_le_def dom_def)
qed

subsection \<open>The second pass\<close>

lemma obj_set_mem: "(k, v) \<in> set (obj_set k v kvs)"
  by (induction kvs) auto

lemma obj_set_other: "(k', v') \<in> set kvs \<Longrightarrow> k' \<noteq> k \<Longrightarrow> (k', v') \<in> set (obj_set k v kvs)"
  by (induction kvs) auto

lemma count_obj_set_new:
  "off \<notin> fst ` set cs \<Longrightarrow>
     length (filter (\<lambda>kc. fst kc = off') (obj_set off ch cs)) =
       length (filter (\<lambda>kc. fst kc = off') cs) + (if off' = off then 1 else 0)"
  by (simp add: obj_set_new)

lemma count_zero_absent:
  "length (filter (\<lambda>kc. fst kc = off) cs) = 0 \<Longrightarrow> off \<notin> fst ` set cs"
  by (auto simp: filter_empty_conv)

lemma offspring_count_zero:
  "offspring_count off gs = 0 \<Longrightarrow> g \<in> set gs \<Longrightarrow> off \<notin> fst ` set (s_children g)"
  by (rule count_zero_absent) (auto simp: offspring_count_def)

lemma offspring_count_Cons:
  "offspring_count off (g # gs) =
     length (filter (\<lambda>kc. fst kc = off) (s_children g)) + offspring_count off gs"
  by (simp add: offspring_count_def)

lemma offspring_count_Nil: "offspring_count off [] = 0"
  by (simp add: offspring_count_def)

lemma count_set_child:
  assumes "offspring_count off (map snd S) = 0"
  shows "offspring_count off' (map snd (set_child S off c)) =
           offspring_count off' (map snd S) + (if off' = off then 1 else 0)"
proof -
  let ?pk = "sort_pair (cand_parents c)" and ?ch = "child_of_candidate c"
  let ?upd = "\<lambda>g. g\<lparr>s_children := obj_set off ?ch (s_children g)\<rparr>"
  let ?get = "\<lambda>S. case map_of S ?pk of None \<Rightarrow> \<lparr>s_parents = ?pk, s_children = []\<rparr> | Some g \<Rightarrow> g"
  have "offspring_count off' (map snd (obj_set ?pk (?upd (?get S)) S)) =
           offspring_count off' (map snd S) + (if off' = off then 1 else 0)"
    using assms
  proof (induction S)
    case Nil
    then show ?case by (simp add: offspring_count_Cons offspring_count_Nil)
  next
    case (Cons kg S)
    have rest: "offspring_count off (map snd S) = 0"
      and here: "off \<notin> fst ` set (s_children (snd kg))"
      using Cons.prems offspring_count_zero[of off "map snd (kg # S)" "snd kg"]
      by (simp_all add: offspring_count_Cons)
    show ?case
    proof (cases "fst kg = ?pk")
      case True
      then have "?get (kg # S) = snd kg" by (cases kg) simp
      then show ?thesis using True here
        by (simp add: offspring_count_Cons count_obj_set_new)
    next
      case False
      then have "?get (kg # S) = ?get S" by (cases kg) simp
      then show ?thesis using False Cons.IH[OF rest]
        by (simp add: offspring_count_Cons)
    qed
  qed
  then show ?thesis by (simp add: set_child_def Let_def)
qed

lemma own_parents_set_child: "own_parents S \<Longrightarrow> own_parents (set_child S off c)"
proof -
  assume own: "own_parents S"
  let ?pk = "sort_pair (cand_parents c)"
  let ?g = "case map_of S ?pk of None \<Rightarrow> \<lparr>s_parents = ?pk, s_children = []\<rparr> | Some g \<Rightarrow> g"
  have "s_parents ?g = ?pk"
    using own by (auto simp: own_parents_def list_all_iff split: option.splits dest!: map_of_SomeD)
  then show ?thesis
    using own set_obj_set[of ?pk "?g\<lparr>s_children := obj_set off (child_of_candidate c) (s_children ?g)\<rparr>" S]
    by (auto simp: own_parents_def set_child_def Let_def distinct_obj_set list_all_iff)
qed

lemma placed_set_child_new:
  assumes "own_parents S"
  shows "placed (set_child S off c) (sort_pair (cand_parents c)) off (child_of_candidate c)"
proof -
  let ?pk = "sort_pair (cand_parents c)"
  let ?g = "case map_of S ?pk of None \<Rightarrow> \<lparr>s_parents = ?pk, s_children = []\<rparr> | Some g \<Rightarrow> g"
  let ?g' = "?g\<lparr>s_children := obj_set off (child_of_candidate c) (s_children ?g)\<rparr>"
  have "s_parents ?g = ?pk"
    using assms by (auto simp: own_parents_def list_all_iff split: option.splits dest!: map_of_SomeD)
  then have "(?pk, ?g') \<in> set (set_child S off c) \<and> s_parents ?g' = ?pk \<and>
             (off, child_of_candidate c) \<in> set (s_children ?g')"
    by (simp add: set_child_def Let_def obj_set_mem)
  then show ?thesis unfolding placed_def by blast
qed

lemma placed_set_child_old:
  assumes "own_parents S" "placed S k off0 ch" "off0 \<noteq> off"
  shows "placed (set_child S off c) k off0 ch"
proof -
  let ?pk = "sort_pair (cand_parents c)"
  let ?g = "case map_of S ?pk of None \<Rightarrow> \<lparr>s_parents = ?pk, s_children = []\<rparr> | Some g \<Rightarrow> g"
  let ?g' = "?g\<lparr>s_children := obj_set off (child_of_candidate c) (s_children ?g)\<rparr>"
  from assms(2) obtain g where g: "(k, g) \<in> set S" "s_parents g = k" "(off0, ch) \<in> set (s_children g)"
    unfolding placed_def by blast
  show ?thesis
  proof (cases "k = ?pk")
    case True
    then have "map_of S ?pk = Some g"
      using g(1) assms(1) by (simp add: own_parents_def)
    then have "?g = g" by simp
    then have "(k, ?g') \<in> set (set_child S off c)" "s_parents ?g' = k"
      "(off0, ch) \<in> set (s_children ?g')"
      using True g assms(3) by (simp_all add: set_child_def Let_def obj_set_mem obj_set_other)
    then show ?thesis unfolding placed_def by blast
  next
    case False
    then have "(k, g) \<in> set (set_child S off c)"
      using g(1) by (simp add: set_child_def Let_def obj_set_other)
    then show ?thesis using g unfolding placed_def by blast
  qed
qed

lemma pass_count:
  assumes "distinct (map fst es)" "\<forall>e \<in> set es. offspring_count (fst e) (map snd S) = 0"
  shows "offspring_count off (map snd (foldl (pick d) S es)) =
           offspring_count off (map snd S) +
           length (filter (\<lambda>e. fst e = off \<and> chosen d e \<noteq> None) es)"
  using assms
proof (induction es arbitrary: S)
  case Nil
  then show ?case by simp
next
  case (Cons e es)
  have zero: "offspring_count (fst e) (map snd S) = 0" using Cons.prems(2) by simp
  have step: "offspring_count off' (map snd (pick d S e)) =
          offspring_count off' (map snd S) + (if off' = fst e \<and> chosen d e \<noteq> None then 1 else 0)"
    for off'
    using count_set_child[OF zero, of off'] by (auto simp: pick_def split: option.splits)
  have "\<forall>e' \<in> set es. offspring_count (fst e') (map snd (pick d S e)) = 0"
  proof
    fix e' assume e': "e' \<in> set es"
    then have "fst e' \<in> fst ` set es" by (rule imageI)
    moreover have "fst e \<notin> fst ` set es" using Cons.prems(1) by simp
    ultimately have "fst e' \<noteq> fst e" by metis
    then show "offspring_count (fst e') (map snd (pick d S e)) = 0"
      using step[of "fst e'"] Cons.prems(2) e' by simp
  qed
  moreover have "distinct (map fst es)" using Cons.prems(1) by simp
  ultimately have "offspring_count off (map snd (foldl (pick d) (pick d S e) es)) =
           offspring_count off (map snd (pick d S e)) +
           length (filter (\<lambda>e. fst e = off \<and> chosen d e \<noteq> None) es)"
    by (intro Cons.IH)
  then show ?case using step[of off] by simp
qed

lemma own_parents_pick: "own_parents S \<Longrightarrow> own_parents (pick d S e)"
  by (simp add: pick_def own_parents_set_child split: option.splits)

lemma own_parents_pass: "own_parents S \<Longrightarrow> own_parents (foldl (pick d) S es)"
  by (induction es arbitrary: S) (simp_all add: own_parents_pick)

lemma placed_pass_old:
  assumes "own_parents S" "placed S k off0 ch" "off0 \<notin> fst ` set es"
  shows "placed (foldl (pick d) S es) k off0 ch"
  using assms
proof (induction es arbitrary: S)
  case Nil
  then show ?case by simp
next
  case (Cons e es)
  have "placed (pick d S e) k off0 ch"
    using Cons.prems placed_set_child_old[of S k off0 ch "fst e"]
    by (auto simp: pick_def split: option.splits)
  moreover have "own_parents (pick d S e)" using Cons.prems(1) by (rule own_parents_pick)
  ultimately show ?case using Cons.prems(3) by (simp add: Cons.IH)
qed

lemma placed_pass_new:
  assumes "own_parents S" "distinct (map fst es)" "e \<in> set es" "chosen d e = Some c"
  shows "placed (foldl (pick d) S es) (sort_pair (cand_parents c)) (fst e) (child_of_candidate c)"
  using assms
proof (induction es arbitrary: S)
  case Nil
  then show ?case by simp
next
  case (Cons a es)
  have own: "own_parents (pick d S a)" using Cons.prems(1) by (rule own_parents_pick)
  show ?case
  proof (cases "a = e")
    case True
    then have "placed (pick d S a) (sort_pair (cand_parents c)) (fst e) (child_of_candidate c)"
      using Cons.prems(1,4) by (simp add: pick_def placed_set_child_new)
    moreover have "fst e \<notin> fst ` set es" using Cons.prems(2) True by auto
    ultimately show ?thesis using own by (simp add: placed_pass_old)
  next
    case False
    then have "e \<in> set es" using Cons.prems(3) by simp
    then show ?thesis using own Cons.prems(2,4) by (simp add: Cons.IH)
  qed
qed

subsection \<open>The output of the builder\<close>

lemma sum_insert_by:
  "sum_list (map f (insert_by cmp x xs)) = (f x :: nat) + sum_list (map f xs)"
  by (induction xs) auto

lemma sum_sort_by: "sum_list (map f (sort_by cmp xs)) = (sum_list (map f xs) :: nat)"
  unfolding sort_by_def by (induction xs) (simp_all add: sum_insert_by)

lemma offspring_count_sort_by: "offspring_count off (sort_by cmp gs) = offspring_count off gs"
  by (simp add: offspring_count_def sum_sort_by)

lemma count_sort_schildren:
  "length (filter (\<lambda>kc. fst kc = off) (s_children (sort_schildren g))) =
     length (filter (\<lambda>kc. fst kc = off) (s_children g))"
proof -
  have "filter (\<lambda>kc. fst kc = off) (map (\<lambda>kc. (fst kc, clean_schild (snd kc))) (sort_key fst (s_children g)))
      = map (\<lambda>kc. (fst kc, clean_schild (snd kc))) (filter (\<lambda>kc. fst kc = off) (sort_key fst (s_children g)))"
    by (simp add: filter_map comp_def)
  then show ?thesis by (simp add: sort_schildren_def filter_sort)
qed

lemma offspring_count_sort_schildren:
  "offspring_count off (map sort_schildren gs) = offspring_count off gs"
  by (induction gs) (simp_all add: offspring_count_def count_sort_schildren)

lemma count_distinct_key:
  "distinct (map fst es) \<Longrightarrow>
     length (filter (\<lambda>e. fst e = k \<and> P e) es) = (if \<exists>e \<in> set es. fst e = k \<and> P e then 1 else 0)"
proof (induction es)
  case Nil
  then show ?case by simp
next
  case (Cons a es)
  show ?case
  proof (cases "fst a = k")
    case True
    then have "k \<notin> fst ` set es" using Cons.prems by auto
    then have no: "\<forall>e \<in> set es. fst e \<noteq> k" by force
    then have "filter (\<lambda>e. fst e = k \<and> P e) es = []"
      by (auto simp: filter_empty_conv)
    then show ?thesis using True no by auto
  next
    case False
    then show ?thesis using Cons by auto
  qed
qed

lemma chosen_None: "d (fst e) = None \<Longrightarrow> chosen d e = None"
  by (simp add: chosen_def)

lemma chosen_justified:
  assumes "justified graph base d" "distinct (map fst graph)" "e \<in> set graph" "d (fst e) = Some n"
  obtains c where "chosen d e = Some c" "c \<in> set (snd e)" "at_depth d n c"
proof -
  have "(fst e, snd e) \<in> set graph" using assms(3) by simp
  with assms(2) have "map_of graph (fst e) = Some (snd e)" by (rule map_of_is_SomeI)
  moreover have "case map_of graph (fst e) of None \<Rightarrow> fst e \<in> set base \<and> n = 0
          | Some cands \<Rightarrow> list_ex (at_depth d n) cands"
    using assms(1,4) unfolding justified_def by blast
  ultimately have "list_ex (at_depth d n) (snd e)" by simp
  then have "find (at_depth d n) (snd e) \<noteq> None"
    by (auto simp: find_None_iff list_ex_iff)
  then obtain c where c: "find (at_depth d n) (snd e) = Some c" by auto
  then have "c \<in> set (snd e)" "at_depth d n c"
    by (auto simp: find_Some_iff)
  moreover have "chosen d e = Some c" using c assms(4) by (simp add: chosen_def)
  ultimately show ?thesis using that by blast
qed

lemma clean_child_of_candidate: "clean_schild (child_of_candidate c) = child_of_candidate c"
  by (simp add: clean_schild_def child_of_candidate_def split: option.splits)

lemma placed_output:
  assumes "placed S k off ch"
  shows "\<exists>g \<in> set (map sort_schildren (sort_by cmp (map snd S))).
           s_parents g = k \<and> (off, clean_schild ch) \<in> set (s_children g)"
proof -
  from assms obtain g where g: "(k, g) \<in> set S" "s_parents g = k" "(off, ch) \<in> set (s_children g)"
    unfolding placed_def by blast
  have "sort_schildren g \<in> set (map sort_schildren (sort_by cmp (map snd S)))"
    using g(1) by (force simp: set_sort_by)
  moreover have "s_parents (sort_schildren g) = k" using g(2) by (simp add: sort_schildren_def)
  moreover have "(off, clean_schild ch) \<in> set (s_children (sort_schildren g))"
    using g(3) by (force simp: sort_schildren_def)
  ultimately show ?thesis by blast
qed

lemma shortest_output_count:
  "offspring_count off (buildShortestPathMutations lc bees gs) =
     (if off \<in> set (beesWithMutations gs) \<and> beeDepths bees gs off \<noteq> None then 1 else 0)"
proof -
  let ?d = "beeDepths bees gs" and ?graph = "mutationGraph gs"
  have j: "justified ?graph (baseBees bees gs) ?d" by (rule justified_beeDepths)
  have dist: "distinct (map fst ?graph)" by (rule distinct_mutationGraph)
  have "offspring_count off (map snd (foldl (pick ?d) [] ?graph)) =
          length (filter (\<lambda>e. fst e = off \<and> chosen ?d e \<noteq> None) ?graph)"
    using pass_count[OF dist, of "[]" off ?d] by (simp add: offspring_count_Nil)
  then have cnt: "offspring_count off (map snd (foldl (pick ?d) [] ?graph)) =
      (if \<exists>e \<in> set ?graph. fst e = off \<and> chosen ?d e \<noteq> None then 1 else 0)"
    using dist by (simp add: count_distinct_key)
  have iff: "(\<exists>e \<in> set ?graph. fst e = off \<and> chosen ?d e \<noteq> None) =
             (off \<in> set (beesWithMutations gs) \<and> ?d off \<noteq> None)"
  proof
    assume "\<exists>e \<in> set ?graph. fst e = off \<and> chosen ?d e \<noteq> None"
    then obtain e where e: "e \<in> set ?graph" "fst e = off" "chosen ?d e \<noteq> None" by blast
    then have "off \<in> fst ` set ?graph" by force
    moreover have "?d off \<noteq> None"
    proof
      assume "?d off = None"
      then have "chosen ?d e = None" using e(2) by (simp add: chosen_def)
      with e(3) show False by simp
    qed
    ultimately show "off \<in> set (beesWithMutations gs) \<and> ?d off \<noteq> None"
      by (simp add: keys_mutationGraph)
  next
    assume a: "off \<in> set (beesWithMutations gs) \<and> ?d off \<noteq> None"
    then obtain e n where e: "e \<in> set ?graph" "fst e = off" "?d (fst e) = Some n"
      by (auto simp: keys_mutationGraph[symmetric])
    from j dist e(1,3) obtain c where "chosen ?d e = Some c" by (rule chosen_justified)
    then show "\<exists>e \<in> set ?graph. fst e = off \<and> chosen ?d e \<noteq> None"
      using e by auto
  qed
  show ?thesis
    unfolding buildShortestPathMutations_def offspring_count_sort_schildren
      offspring_count_sort_by cnt iff ..
qed

lemma shortest_output_relation:
  assumes "off \<in> set (beesWithMutations gs)" "beeDepths bees gs off = Some n"
  shows "\<exists>cands c. map_of (mutationGraph gs) off = Some cands \<and> c \<in> set cands \<and>
           well_formed_candidate c \<and> at_depth (beeDepths bees gs) n c \<and>
           (\<exists>g \<in> set (buildShortestPathMutations lc bees gs).
              s_parents g = sort_pair (cand_parents c) \<and>
              (off, child_of_candidate c) \<in> set (s_children g))"
proof -
  let ?d = "beeDepths bees gs" and ?graph = "mutationGraph gs"
  have j: "justified ?graph (baseBees bees gs) ?d" by (rule justified_beeDepths)
  have dist: "distinct (map fst ?graph)" by (rule distinct_mutationGraph)
  from assms obtain e where e: "e \<in> set ?graph" "fst e = off" "?d (fst e) = Some n"
    by (auto simp: keys_mutationGraph[symmetric])
  from j dist e(1,3) obtain c where c: "chosen ?d e = Some c" "c \<in> set (snd e)" "at_depth ?d n c"
    by (rule chosen_justified)
  have "(fst e, snd e) \<in> set ?graph" using e(1) by simp
  with dist have look: "map_of ?graph off = Some (snd e)"
    unfolding e(2)[symmetric] by (rule map_of_is_SomeI)
  have wf: "well_formed_candidate c" using wf_mutationGraph e(1) c(2) by blast
  have "own_parents []" by (simp add: own_parents_def)
  then have "placed (foldl (pick ?d) [] ?graph) (sort_pair (cand_parents c)) (fst e)
               (child_of_candidate c)"
    using dist e(1) c(1) by (rule placed_pass_new)
  from placed_output[OF this, of "compare_sgroups lc"]
  have "\<exists>g \<in> set (buildShortestPathMutations lc bees gs).
              s_parents g = sort_pair (cand_parents c) \<and>
              (off, child_of_candidate c) \<in> set (s_children g)"
    by (simp add: buildShortestPathMutations_def clean_child_of_candidate e(2))
  then show ?thesis using look c(2,3) wf by blast
qed

subsection \<open>Where a candidate comes from\<close>

lemma origin_add_candidates:
  assumes "\<forall>e \<in> set graph. \<forall>c \<in> set (snd e). P (fst e) c"
    and "\<forall>c \<in> set cands. P off c"
  shows "\<forall>e \<in> set (add_candidates graph off cands). \<forall>c \<in> set (snd e). P (fst e) c"
proof (cases "map_of graph off")
  case None
  then show ?thesis using assms by (auto simp: add_candidates_def)
next
  case (Some old)
  then have "(off, old) \<in> set graph" by (rule map_of_SomeD)
  then have all: "\<forall>c \<in> set (old @ cands). P off c"
    using assms by force
  show ?thesis
  proof (intro ballI)
    fix e c
    assume e: "e \<in> set (add_candidates graph off cands)" "c \<in> set (snd e)"
    then have "e = (off, old @ cands) \<or> e \<in> set graph"
      using Some set_obj_set[of off "old @ cands" graph] by (auto simp: add_candidates_def)
    then show "P (fst e) c"
    proof
      assume "e = (off, old @ cands)"
      then show ?thesis using e(2) all by simp
    next
      assume "e \<in> set graph"
      then show ?thesis using e(2) assms(1) by blast
    qed
  qed
qed

lemma origin_add_group:
  assumes "\<forall>e \<in> set graph. \<forall>c \<in> set (snd e). P (fst e) c"
    and "\<forall>oc \<in> set (children g). \<forall>c \<in> set (candidates_of (parents g) (snd oc)). P (fst oc) c"
  shows "\<forall>e \<in> set (add_group graph g). \<forall>c \<in> set (snd e). P (fst e) c"
proof -
  have "\<forall>e \<in> set (foldl (\<lambda>gr oc. add_candidates gr (fst oc) (candidates_of (parents g) (snd oc)))
                       graph cs). \<forall>c \<in> set (snd e). P (fst e) c"
    if "set cs \<subseteq> set (children g)" for cs
    using assms(1) that
  proof (induction cs arbitrary: graph)
    case Nil
    then show ?case by simp
  next
    case (Cons oc cs)
    have "\<forall>c \<in> set (candidates_of (parents g) (snd oc)). P (fst oc) c"
      using assms(2) Cons.prems(2) by simp
    with Cons.prems(1)
    have "\<forall>e \<in> set (add_candidates graph (fst oc) (candidates_of (parents g) (snd oc))).
            \<forall>c \<in> set (snd e). P (fst e) c"
      by (rule origin_add_candidates)
    from Cons.IH[OF this] Cons.prems(2) show ?case by simp
  qed
  from this[of "children g"] show ?thesis by (simp add: add_group_def)
qed

lemma origin_mutationGraph:
  assumes "(off, cands) \<in> set (mutationGraph gs)" "c \<in> set cands"
  shows "\<exists>g \<in> set gs. \<exists>cd. (off, cd) \<in> set (children g) \<and>
           c \<in> set (candidates_of (parents g) cd)"
proof -
  let ?P = "\<lambda>off c. \<exists>g \<in> set gs. \<exists>cd. (off, cd) \<in> set (children g) \<and>
                       c \<in> set (candidates_of (parents g) cd)"
  have "\<forall>e \<in> set (foldl add_group graph gs'). \<forall>c \<in> set (snd e). ?P (fst e) c"
    if "\<forall>e \<in> set graph. \<forall>c \<in> set (snd e). ?P (fst e) c" "set gs' \<subseteq> set gs" for graph gs'
    using that
  proof (induction gs' arbitrary: graph)
    case Nil
    then show ?case by simp
  next
    case (Cons g gs')
    have "\<forall>oc \<in> set (children g). \<forall>c \<in> set (candidates_of (parents g) (snd oc)). ?P (fst oc) c"
      using Cons.prems(2) by force
    with Cons.prems(1)
    have "\<forall>e \<in> set (add_group graph g). \<forall>c \<in> set (snd e). ?P (fst e) c"
      by (rule origin_add_group)
    from Cons.IH[OF this] Cons.prems(2) show ?case by simp
  qed
  from this[of "[]" gs] have "\<forall>e \<in> set (mutationGraph gs). \<forall>c \<in> set (snd e). ?P (fst e) c"
    by (simp add: mutationGraph_def)
  with assms show ?thesis by force
qed

lemma child_of_candidates_of:
  assumes "c \<in> set (candidates_of ps cd)"
  shows "cand_parents c = ps \<and>
         (if requirements_or_empty cd = []
          then child_of_candidate c = \<lparr>s_chance = JNum (chance cd), s_requirements = None\<rparr>
          else \<exists>req \<in> set (requirements_or_empty cd).
                 child_of_candidate c =
                   \<lparr>s_chance = (case map_of req ''chance'' of
                                  None \<Rightarrow> JNum (chance cd) | Some v \<Rightarrow> v),
                    s_requirements = Some [req]\<rparr>)"
  using assms
  by (auto simp: candidates_of_def requirement_candidate_def child_of_candidate_def
           split: if_splits)

subsection \<open>The builder on the example inputs\<close>

lemmas example_defs = example_bees_def example_mutations_def detour_bees_def detour_mutations_def

lemma example_depths:
  "map (beeDepths example_bees example_mutations) example_bees =
     [Some 0, Some 0, Some 1, Some 2, None, Some 0, None]"
  by (simp add: sp_defs example_defs)

lemma example_output:
  "buildShortestPathMutations code_unit_compare example_bees example_mutations =
     [\<lparr>s_parents = (''a'', ''b''),
        s_children = [(''c'', \<lparr>s_chance = JNum (round_double (1 / 10)), s_requirements = None\<rparr>)]\<rparr>,
      \<lparr>s_parents = (''b'', ''c''),
        s_children = [(''d'', \<lparr>s_chance = JNum (round_double (1 / 5)),
                         s_requirements = Some [[(''biome'', JStrs [''HELL''])]]\<rparr>)]\<rparr>]"
  by (simp add: sp_defs example_defs)

lemma detour_depths:
  "map (beeDepths detour_bees detour_mutations) detour_bees =
     [Some 0, Some 0, Some 1, Some 2, Some 0]"
  by (simp add: sp_defs example_defs)

lemma detour_output:
  "buildShortestPathMutations code_unit_compare detour_bees detour_mutations =
     [\<lparr>s_parents = (''a'', ''b''),
        s_children = [(''c'', \<lparr>s_chance = JNum (round_double (1 / 10)), s_requirements = None\<rparr>)]\<rparr>,
      \<lparr>s_parents = (''a'', ''c''),
        s_children = [(''d'', \<lparr>s_chance = JNum (round_double (1 / 10)), s_requirements = None\<rparr>)]\<rparr>]"
  by (simp add: sp_defs example_defs)

text \<open>
  Claim C2, as stated, fails on the parents: the depth of an offspring is one more than the
  larger of the two parent depths. In the example, \<open>d\<close> has depth 2 and its relation in
  the output has the parents \<open>b\<close> and \<open>c\<close>, at depths 0 and 1.
\<close>

theorem producing_parents_at_different_depths:
  "beeDepths example_bees example_mutations ''d'' = Some 2 \<and>
   beeDepths example_bees example_mutations ''b'' = Some 0 \<and>
   beeDepths example_bees example_mutations ''c'' = Some 1 \<and>
   buildShortestPathMutations code_unit_compare example_bees example_mutations =
     [\<lparr>s_parents = (''a'', ''b''),
        s_children = [(''c'', \<lparr>s_chance = JNum (round_double (1 / 10)), s_requirements = None\<rparr>)]\<rparr>,
      \<lparr>s_parents = (''b'', ''c''),
        s_children = [(''d'', \<lparr>s_chance = JNum (round_double (1 / 5)),
                         s_requirements = Some [[(''biome'', JStrs [''HELL''])]]\<rparr>)]\<rparr>]"
  using example_depths example_output by (simp add: example_bees_def)

text \<open>
  Claim C2, amended. A bee of the registry that is never an offspring has depth 0. An
  entity with a depth that is never an offspring is such a bee, at depth 0. An offspring
  with a depth \<open>n\<close> has a candidate relation of its own whose two parents have depths, the
  larger of them \<open>n - 1\<close>, and the output holds this relation for it, in the group under
  the sorted parents.
\<close>

theorem depth_has_producing_relation:
  "(E \<in> set allBees \<and> E \<notin> set (beesWithMutations allMutations) \<longrightarrow>
      beeDepths allBees allMutations E = Some 0) \<and>
   (beeDepths allBees allMutations E = Some n \<longrightarrow>
      (if E \<in> set (beesWithMutations allMutations)
       then \<exists>cands c depth1 depth2.
              map_of (mutationGraph allMutations) E = Some cands \<and> c \<in> set cands \<and>
              beeDepths allBees allMutations (fst (cand_parents c)) = Some depth1 \<and>
              beeDepths allBees allMutations (snd (cand_parents c)) = Some depth2 \<and>
              max depth1 depth2 + 1 = n \<and>
              (\<exists>g \<in> set (buildShortestPathMutations lc allBees allMutations).
                 s_parents g = sort_pair (cand_parents c) \<and>
                 (E, child_of_candidate c) \<in> set (s_children g))
       else E \<in> set allBees \<and> n = 0))"
proof (intro conjI impI)
  assume "E \<in> set allBees \<and> E \<notin> set (beesWithMutations allMutations)"
  then have "E \<in> set (baseBees allBees allMutations)" by (simp add: baseBees_def)
  then show "beeDepths allBees allMutations E = Some 0" by (rule base_depth)
next
  assume n: "beeDepths allBees allMutations E = Some n"
  show "if E \<in> set (beesWithMutations allMutations)
       then \<exists>cands c depth1 depth2.
              map_of (mutationGraph allMutations) E = Some cands \<and> c \<in> set cands \<and>
              beeDepths allBees allMutations (fst (cand_parents c)) = Some depth1 \<and>
              beeDepths allBees allMutations (snd (cand_parents c)) = Some depth2 \<and>
              max depth1 depth2 + 1 = n \<and>
              (\<exists>g \<in> set (buildShortestPathMutations lc allBees allMutations).
                 s_parents g = sort_pair (cand_parents c) \<and>
                 (E, child_of_candidate c) \<in> set (s_children g))
       else E \<in> set allBees \<and> n = 0"
  proof (cases "E \<in> set (beesWithMutations allMutations)")
    case True
    from shortest_output_relation[OF True n, of lc]
    obtain cands c where c: "map_of (mutationGraph allMutations) E = Some cands" "c \<in> set cands"
      "at_depth (beeDepths allBees allMutations) n c"
      "\<exists>g \<in> set (buildShortestPathMutations lc allBees allMutations).
              s_parents g = sort_pair (cand_parents c) \<and>
              (E, child_of_candidate c) \<in> set (s_children g)"
      by blast
    from c(3) obtain depth1 depth2 where
      "beeDepths allBees allMutations (fst (cand_parents c)) = Some depth1"
      "beeDepths allBees allMutations (snd (cand_parents c)) = Some depth2"
      "max depth1 depth2 + 1 = n"
      by (auto simp: at_depth_def reachable_candidate_def maxParentDepth_def)
    then show ?thesis using True c(1,2,4) by auto
  next
    case False
    then have "map_of (mutationGraph allMutations) E = None"
      by (simp add: map_of_eq_None_iff keys_mutationGraph)
    moreover have "case map_of (mutationGraph allMutations) E of
           None \<Rightarrow> E \<in> set (baseBees allBees allMutations) \<and> n = 0
         | Some cands \<Rightarrow> list_ex (at_depth (beeDepths allBees allMutations) n) cands"
      using justified_beeDepths[of allMutations allBees] n unfolding justified_def by blast
    ultimately have "E \<in> set (baseBees allBees allMutations) \<and> n = 0" by simp
    then show ?thesis using False by (simp add: baseBees_def)
  qed
qed

theorem depth_has_producing_relation_witness:
  "''a'' \<in> set example_bees \<and> ''a'' \<notin> set (beesWithMutations example_mutations) \<and>
   beeDepths example_bees example_mutations ''a'' = Some 0 \<and>
   beeDepths example_bees example_mutations ''d'' = Some 2 \<and>
   ''d'' \<in> set (beesWithMutations example_mutations) \<and>
   (\<exists>cands c depth1 depth2.
       map_of (mutationGraph example_mutations) ''d'' = Some cands \<and> c \<in> set cands \<and>
       beeDepths example_bees example_mutations (fst (cand_parents c)) = Some depth1 \<and>
       beeDepths example_bees example_mutations (snd (cand_parents c)) = Some depth2 \<and>
       max depth1 depth2 + 1 = 2 \<and>
       (\<exists>g \<in> set (buildShortestPathMutations code_unit_compare example_bees example_mutations).
          s_parents g = sort_pair (cand_parents c) \<and>
          (''d'', child_of_candidate c) \<in> set (s_children g)))"
proof -
  have a: "''a'' \<in> set example_bees \<and> ''a'' \<notin> set (beesWithMutations example_mutations)"
    by (simp add: beesWithMutations_def example_defs)
  have d: "beeDepths example_bees example_mutations ''d'' = Some 2"
    using example_depths by (simp add: example_bees_def)
  have off: "''d'' \<in> set (beesWithMutations example_mutations)"
    by (simp add: beesWithMutations_def example_mutations_def)
  have "beeDepths example_bees example_mutations ''a'' = Some 0"
    using depth_has_producing_relation[of "''a''" example_bees example_mutations 0 code_unit_compare] a
    by blast
  moreover have "\<exists>cands c depth1 depth2.
       map_of (mutationGraph example_mutations) ''d'' = Some cands \<and> c \<in> set cands \<and>
       beeDepths example_bees example_mutations (fst (cand_parents c)) = Some depth1 \<and>
       beeDepths example_bees example_mutations (snd (cand_parents c)) = Some depth2 \<and>
       max depth1 depth2 + 1 = 2 \<and>
       (\<exists>g \<in> set (buildShortestPathMutations code_unit_compare example_bees example_mutations).
          s_parents g = sort_pair (cand_parents c) \<and>
          (''d'', child_of_candidate c) \<in> set (s_children g))"
    using depth_has_producing_relation[of "''d''" example_bees example_mutations 2 code_unit_compare] d off
    by simp
  ultimately show ?thesis using a d off by simp
qed

text \<open>
  The depth is the one of the first candidate found with both parents reached, which need
  not be the least: in the second example \<open>d\<close> gets depth 2 from \<open>a, c\<close>, although its
  candidate \<open>a, e\<close> has both parents at depth 0.
\<close>

lemma first_candidate_depth_not_least:
  "beeDepths detour_bees detour_mutations ''d'' = Some 2 \<and>
   beeDepths detour_bees detour_mutations ''a'' = Some 0 \<and>
   beeDepths detour_bees detour_mutations ''e'' = Some 0 \<and>
   map_of (mutationGraph detour_mutations) ''d'' =
     Some [Candidate (''a'', ''c'') (JNum (round_double (1 / 10))) None False,
           Candidate (''a'', ''e'') (JNum (round_double (1 / 10))) None False]"
  using detour_depths
  by (simp add: detour_bees_def detour_mutations_def mutationGraph_def add_group_def
                add_candidates_def candidates_of_def requirements_or_empty_def)

text \<open>
  Claim C7. The builder is a total function: the loop ends on every input, cyclic or not
  (the termination proof of \<open>bfs\<close>). An entity without a depth is no offspring of any
  output group. An entity with a depth that is an offspring of the input is an offspring
  of the output exactly once, and that one entry is built from one producing relation of
  the input, a child entry \<open>cd\<close> for it in an input group: the output group has the
  sorted parents of the input group; when \<open>cd\<close> has no requirements, the entry has the
  chance of \<open>cd\<close> and no requirement list; otherwise it has the one-element list of one
  requirement of \<open>cd\<close>, and the chance of that requirement when it has one, else the
  chance of \<open>cd\<close>.
\<close>

theorem shortest_path_offspring_once:
  "(beeDepths allBees allMutations off = None \<longrightarrow>
      offspring_count off (buildShortestPathMutations lc allBees allMutations) = 0) \<and>
   (beeDepths allBees allMutations off \<noteq> None \<and> off \<in> set (beesWithMutations allMutations) \<longrightarrow>
      offspring_count off (buildShortestPathMutations lc allBees allMutations) = 1 \<and>
      (\<exists>gin \<in> set allMutations. \<exists>cd. (off, cd) \<in> set (children gin) \<and>
         (\<exists>g \<in> set (buildShortestPathMutations lc allBees allMutations).
            s_parents g = sort_pair (parents gin) \<and>
            (if requirements_or_empty cd = []
             then (off, \<lparr>s_chance = JNum (chance cd), s_requirements = None\<rparr>)
                    \<in> set (s_children g)
             else \<exists>req \<in> set (requirements_or_empty cd).
                    (off, \<lparr>s_chance = (case map_of req ''chance'' of
                                         None \<Rightarrow> JNum (chance cd) | Some v \<Rightarrow> v),
                           s_requirements = Some [req]\<rparr>) \<in> set (s_children g)))))"
proof (intro conjI impI)
  assume "beeDepths allBees allMutations off = None"
  then show "offspring_count off (buildShortestPathMutations lc allBees allMutations) = 0"
    by (simp add: shortest_output_count)
next
  assume a: "beeDepths allBees allMutations off \<noteq> None \<and> off \<in> set (beesWithMutations allMutations)"
  then show "offspring_count off (buildShortestPathMutations lc allBees allMutations) = 1"
    by (simp add: shortest_output_count)
  from a obtain n where n: "beeDepths allBees allMutations off = Some n" by auto
  from a have "off \<in> set (beesWithMutations allMutations)" by simp
  from shortest_output_relation[OF this n, of lc]
  obtain cands c g where c: "map_of (mutationGraph allMutations) off = Some cands" "c \<in> set cands"
    and g: "g \<in> set (buildShortestPathMutations lc allBees allMutations)"
      "s_parents g = sort_pair (cand_parents c)"
      "(off, child_of_candidate c) \<in> set (s_children g)"
    by blast
  have "(off, cands) \<in> set (mutationGraph allMutations)" using c(1) by (rule map_of_SomeD)
  from origin_mutationGraph[OF this c(2)]
  obtain gin cd where gin: "gin \<in> set allMutations" "(off, cd) \<in> set (children gin)"
    "c \<in> set (candidates_of (parents gin) cd)"
    by blast
  from child_of_candidates_of[OF gin(3)]
  have ps: "cand_parents c = parents gin"
    and ch: "if requirements_or_empty cd = []
          then child_of_candidate c = \<lparr>s_chance = JNum (chance cd), s_requirements = None\<rparr>
          else \<exists>req \<in> set (requirements_or_empty cd).
                 child_of_candidate c =
                   \<lparr>s_chance = (case map_of req ''chance'' of
                                  None \<Rightarrow> JNum (chance cd) | Some v \<Rightarrow> v),
                    s_requirements = Some [req]\<rparr>"
    by simp_all
  have "if requirements_or_empty cd = []
             then (off, \<lparr>s_chance = JNum (chance cd), s_requirements = None\<rparr>)
                    \<in> set (s_children g)
             else \<exists>req \<in> set (requirements_or_empty cd).
                    (off, \<lparr>s_chance = (case map_of req ''chance'' of
                                         None \<Rightarrow> JNum (chance cd) | Some v \<Rightarrow> v),
                           s_requirements = Some [req]\<rparr>) \<in> set (s_children g)"
  proof (cases "requirements_or_empty cd = []")
    case True
    then show ?thesis using ch g(3) by simp
  next
    case False
    then obtain req where "req \<in> set (requirements_or_empty cd)"
      "child_of_candidate c =
         \<lparr>s_chance = (case map_of req ''chance'' of None \<Rightarrow> JNum (chance cd) | Some v \<Rightarrow> v),
          s_requirements = Some [req]\<rparr>"
      using ch by auto
    then show ?thesis using False g(3) by auto
  qed
  then show "\<exists>gin \<in> set allMutations. \<exists>cd. (off, cd) \<in> set (children gin) \<and>
         (\<exists>g \<in> set (buildShortestPathMutations lc allBees allMutations).
            s_parents g = sort_pair (parents gin) \<and>
            (if requirements_or_empty cd = []
             then (off, \<lparr>s_chance = JNum (chance cd), s_requirements = None\<rparr>)
                    \<in> set (s_children g)
             else \<exists>req \<in> set (requirements_or_empty cd).
                    (off, \<lparr>s_chance = (case map_of req ''chance'' of
                                         None \<Rightarrow> JNum (chance cd) | Some v \<Rightarrow> v),
                           s_requirements = Some [req]\<rparr>) \<in> set (s_children g)))"
    using gin(1,2) g(1,2) ps by metis
qed

theorem shortest_path_offspring_once_witness:
  "beeDepths example_bees example_mutations ''u'' = None \<and>
   offspring_count ''u''
     (buildShortestPathMutations code_unit_compare example_bees example_mutations) = 0 \<and>
   beeDepths example_bees example_mutations ''d'' = Some 2 \<and>
   ''d'' \<in> set (beesWithMutations example_mutations) \<and>
   offspring_count ''d''
     (buildShortestPathMutations code_unit_compare example_bees example_mutations) = 1"
proof -
  have u: "beeDepths example_bees example_mutations ''u'' = None"
    and d: "beeDepths example_bees example_mutations ''d'' = Some 2"
    using example_depths by (simp_all add: example_bees_def)
  have off: "''d'' \<in> set (beesWithMutations example_mutations)"
    by (simp add: beesWithMutations_def example_mutations_def)
  have "offspring_count ''u''
     (buildShortestPathMutations code_unit_compare example_bees example_mutations) = 0"
    using shortest_path_offspring_once[of example_bees example_mutations "''u''" code_unit_compare] u
    by blast
  moreover have "offspring_count ''d''
     (buildShortestPathMutations code_unit_compare example_bees example_mutations) = 1"
    using shortest_path_offspring_once[of example_bees example_mutations "''d''" code_unit_compare] d off
    by simp
  ultimately show ?thesis using u d off by simp
qed

section \<open>Identifiers: properties\<close>

lemmas name_defs = species_uid_def remove_underscores_def toLowerCase_def ascii_lower_def
  ascii_upper_def is_upper_def is_word_def is_space_def displayName_def display_part_def
  split_def resolveSpeciesReference_def trim_def forestry_at_def extrabees_at_def
  quoted_word_def bare_symbol_def lang_key_def bee_id_def Let_def

lemma lower_upper_disjoint:
  "list_all (\<lambda>c. c \<notin> set ''ABCDEFGHIJKLMNOPQRSTUVWXYZ_'') ''abcdefghijklmnopqrstuvwxyz''"
  by code_simp

lemma lower_not_upper: "is_lower c \<Longrightarrow> \<not> is_upper c \<and> c \<noteq> CHR ''_''"
  using lower_upper_disjoint unfolding list_all_iff is_lower_def is_upper_def by auto

lemma ascii_lower_cases:
  obtains (fixed) "ascii_lower c = c" "\<not> is_upper c"
  | (lowered) "is_upper c" "is_lower (ascii_lower c)"
proof (cases "map_of (zip ''ABCDEFGHIJKLMNOPQRSTUVWXYZ'' ''abcdefghijklmnopqrstuvwxyz'') c")
  case None
  then have "c \<notin> set ''ABCDEFGHIJKLMNOPQRSTUVWXYZ''"
    by (subst (asm) map_of_zip_is_None) simp_all
  then have "\<not> is_upper c" by (simp only: is_upper_def not_False_eq_True)
  moreover have "ascii_lower c = c" using None by (simp only: ascii_lower_def option.case)
  ultimately show ?thesis by (intro fixed)
next
  case (Some d)
  then have zip: "(c, d) \<in> set (zip ''ABCDEFGHIJKLMNOPQRSTUVWXYZ'' ''abcdefghijklmnopqrstuvwxyz'')"
    by (rule map_of_SomeD)
  have "c \<in> set ''ABCDEFGHIJKLMNOPQRSTUVWXYZ''" using zip by (rule set_zip_leftD)
  moreover have "d \<in> set ''abcdefghijklmnopqrstuvwxyz''" using zip by (rule set_zip_rightD)
  ultimately have "is_upper c" "is_lower d" by (simp_all only: is_upper_def is_lower_def)
  moreover have "ascii_lower c = d" using Some by (simp only: ascii_lower_def option.case)
  ultimately show ?thesis by (intro lowered) simp_all
qed

lemma ascii_lower_fixed: "\<not> is_upper c \<Longrightarrow> ascii_lower c = c"
  by (cases c rule: ascii_lower_cases) simp_all

lemma ascii_lower_idem: "ascii_lower (ascii_lower c) = ascii_lower c"
  by (cases c rule: ascii_lower_cases) (simp_all add: ascii_lower_fixed lower_not_upper)

lemma ascii_lower_underscore: "(ascii_lower c = CHR ''_'') = (c = CHR ''_'')"
proof (cases c rule: ascii_lower_cases)
  case fixed
  then show ?thesis by simp
next
  case lowered
  then have "ascii_lower c \<noteq> CHR ''_''" using lower_not_upper by blast
  moreover have "c \<noteq> CHR ''_''" using lowered(1) by (auto simp: is_upper_def)
  ultimately show ?thesis by simp
qed

lemma toLowerCase_idem: "toLowerCase (toLowerCase s) = toLowerCase s"
  by (simp add: toLowerCase_def ascii_lower_idem)

lemma toLowerCase_remove:
  "toLowerCase (remove_underscores s) = remove_underscores (toLowerCase s)"
  by (induction s) (simp_all add: toLowerCase_def remove_underscores_def ascii_lower_underscore)

lemma normalize_idem:
  "remove_underscores (toLowerCase (remove_underscores (toLowerCase s))) =
     remove_underscores (toLowerCase s)"
proof -
  have "remove_underscores (remove_underscores t) = remove_underscores t" for t
    by (simp add: remove_underscores_def)
  then show ?thesis by (simp add: toLowerCase_remove toLowerCase_idem)
qed

lemma strip_prefix_set: "strip_prefix p s = Some r \<Longrightarrow> set p \<subseteq> set s"
  by (induction p s rule: strip_prefix.induct) (auto split: if_splits)

lemma first_match_part:
  "first_match matcher s = Some x \<Longrightarrow> \<exists>s'. set s' \<subseteq> set s \<and> matcher s' = Some x"
proof (induction s)
  case Nil
  then show ?case by auto
next
  case (Cons a s)
  show ?case
  proof (cases "matcher (a # s)")
    case None
    then have "first_match matcher s = Some x" using Cons.prems by simp
    from Cons.IH[OF this] show ?thesis by auto
  next
    case (Some m)
    then have "matcher (a # s) = Some x" using Cons.prems by simp
    then show ?thesis by blast
  qed
qed

lemma forestry_at_chars:
  "forestry_at s = Some x \<Longrightarrow> CHR ''g'' \<in> set s \<and> CHR ''F'' \<in> set s"
proof -
  assume "forestry_at s = Some x"
  then obtain r where "strip_prefix ''getForestrySpecies'' s = Some r"
    by (auto simp: forestry_at_def split: option.splits)
  then have "set ''getForestrySpecies'' \<subseteq> set s" by (rule strip_prefix_set)
  then show ?thesis by simp
qed

lemma extrabees_at_chars:
  "extrabees_at s = Some x \<Longrightarrow> CHR ''x'' \<in> set s \<and> CHR ''E'' \<in> set s"
proof -
  assume "extrabees_at s = Some x"
  then obtain r where "strip_prefix ''ExtraBeeDefinition.'' s = Some r"
    by (auto simp: extrabees_at_def split: option.splits)
  then have "set ''ExtraBeeDefinition.'' \<subseteq> set s" by (rule strip_prefix_set)
  then show ?thesis by simp
qed

lemma no_forestry_match:
  "CHR ''g'' \<notin> set s \<or> CHR ''F'' \<notin> set s \<Longrightarrow> first_match forestry_at s = None"
proof (rule ccontr)
  assume a: "CHR ''g'' \<notin> set s \<or> CHR ''F'' \<notin> set s" and "first_match forestry_at s \<noteq> None"
  then obtain x where "first_match forestry_at s = Some x" by auto
  then obtain s' where "set s' \<subseteq> set s" "forestry_at s' = Some x"
    using first_match_part by blast
  then show False using a forestry_at_chars[of s' x] by blast
qed

lemma no_extrabees_match:
  "CHR ''x'' \<notin> set s \<or> CHR ''E'' \<notin> set s \<Longrightarrow> first_match extrabees_at s = None"
proof (rule ccontr)
  assume a: "CHR ''x'' \<notin> set s \<or> CHR ''E'' \<notin> set s" and "first_match extrabees_at s \<noteq> None"
  then obtain x where "first_match extrabees_at s = Some x" by auto
  then obtain s' where "set s' \<subseteq> set s" "extrabees_at s' = Some x"
    using first_match_part by blast
  then show False using a extrabees_at_chars[of s' x] by blast
qed

lemma trim_no_space: "\<forall>c \<in> set s. \<not> is_space c \<Longrightarrow> trim s = s"
proof -
  assume a: "\<forall>c \<in> set s. \<not> is_space c"
  have "dropWhile is_space t = t" if "\<forall>c \<in> set t. \<not> is_space c" for t
    using that by (cases t) auto
  from this[of s] this[of "rev s"] show ?thesis using a by (simp add: trim_def)
qed

lemma symbol_alphabet:
  "list_all (\<lambda>c. \<not> is_space c \<and> c \<noteq> CHR ''g'' \<and> c \<noteq> CHR ''x'')
     ''ABCDEFGHIJKLMNOPQRSTUVWXYZ_''"
  by code_simp

lemma key_alphabet:
  "list_all (\<lambda>c. \<not> is_space c \<and> c \<noteq> CHR ''F'' \<and> c \<noteq> CHR ''E'' \<and> \<not> is_upper c \<and> c \<noteq> CHR ''_'')
     (''abcdefghijklmnopqrstuvwxyz'' @ ''magicbees:'')"
  by code_simp

lemma bare_symbol_chars:
  assumes "bare_symbol e" "c \<in> set e"
  shows "\<not> is_space c \<and> c \<noteq> CHR ''g'' \<and> c \<noteq> CHR ''x''"
proof -
  have "c \<in> set ''ABCDEFGHIJKLMNOPQRSTUVWXYZ_''"
    using assms by (auto simp: bare_symbol_def list_all_iff is_upper_def)
  then show ?thesis using symbol_alphabet unfolding list_all_iff by blast
qed

lemma resolve_bare_symbol:
  assumes "bare_symbol e" "list_all (\<lambda>ub. fst ub = species_uid (snd ub)) bees"
  shows "resolveSpeciesReference e bees = species_uid e"
proof -
  have t: "trim e = e" using bare_symbol_chars[OF assms(1)] by (intro trim_no_space) blast
  have f: "first_match forestry_at e = None"
    using bare_symbol_chars[OF assms(1)] by (intro no_forestry_match) blast
  have x: "first_match extrabees_at e = None"
    using bare_symbol_chars[OF assms(1)] by (intro no_extrabees_match) blast
  show ?thesis
  proof (cases "find (\<lambda>ub. snd ub = e) bees")
    case None
    then show ?thesis using t f x assms(1)
      by (simp add: resolveSpeciesReference_def species_uid_def)
  next
    case (Some ub)
    then have "ub \<in> set bees" "snd ub = e" by (auto simp: find_Some_iff)
    then have "fst ub = species_uid e" using assms(2) by (auto simp: list_all_iff)
    then show ?thesis using t Some by (simp add: resolveSpeciesReference_def)
  qed
qed

lemma species_uid_chars:
  assumes "bare_symbol e" "c \<in> set (species_uid e)"
  shows "c \<in> set (''abcdefghijklmnopqrstuvwxyz'' @ ''magicbees:'')"
proof -
  have low: "ascii_lower a \<noteq> CHR ''_'' \<Longrightarrow> is_upper a \<or> a = CHR ''_'' \<Longrightarrow> is_lower (ascii_lower a)" for a
    by (cases a rule: ascii_lower_cases) auto
  from assms(2) have "c \<in> set ''magicbees:'' \<or> c \<in> set (remove_underscores (toLowerCase e))"
    by (simp only: species_uid_def set_append Un_iff)
  then show ?thesis
  proof
    assume "c \<in> set ''magicbees:''"
    then show ?thesis by (simp only: set_append Un_iff simp_thms)
  next
    assume "c \<in> set (remove_underscores (toLowerCase e))"
    then obtain a where "a \<in> set e" "c = ascii_lower a" "c \<noteq> CHR ''_''"
      by (auto simp: remove_underscores_def toLowerCase_def)
    moreover have "is_upper a \<or> a = CHR ''_''"
      using assms(1) \<open>a \<in> set e\<close> by (auto simp: bare_symbol_def list_all_iff)
    ultimately have "is_lower c" using low by blast
    then show ?thesis by (simp only: is_lower_def set_append Un_iff simp_thms)
  qed
qed

lemma resolve_key:
  assumes "bare_symbol e" "list_all (\<lambda>ub. list_all is_word (snd ub)) bees"
  shows "resolveSpeciesReference (species_uid e) bees = species_uid e"
proof -
  let ?u = "species_uid e"
  have chars: "\<not> is_space c \<and> c \<noteq> CHR ''F'' \<and> c \<noteq> CHR ''E'' \<and> \<not> is_upper c \<and> c \<noteq> CHR ''_''"
    if "c \<in> set ?u" for c
    using species_uid_chars[OF assms(1) that] key_alphabet unfolding list_all_iff by blast
  have t: "trim ?u = ?u" using chars by (intro trim_no_space) blast
  have f: "first_match forestry_at ?u = None" using chars by (intro no_forestry_match) blast
  have x: "first_match extrabees_at ?u = None" using chars by (intro no_extrabees_match) blast
  have colon: "CHR '':'' \<in> set ?u" by (simp add: species_uid_def)
  have "\<not> is_word (CHR '':'')" by (simp add: is_word_def)
  then have "snd ub \<noteq> ?u" if "ub \<in> set bees" for ub
    using assms(2) that colon by (auto simp: list_all_iff)
  then have "\<not> (\<exists>ub. ub \<in> set bees \<and> snd ub = ?u)" by blast
  then have nf: "find (\<lambda>ub. snd ub = ?u) bees = None"
    by (simp only: find_None_iff not_False_eq_True)
  have "\<not> (is_upper (CHR ''m'') \<or> CHR ''m'' = CHR ''_'')" by (simp add: is_upper_def)
  moreover have "CHR ''m'' \<in> set ?u" by (simp add: species_uid_def)
  ultimately have nb: "\<not> bare_symbol ?u"
    unfolding bare_symbol_def list_all_iff by blast
  show ?thesis using t f x nf nb by (simp add: resolveSpeciesReference_def)
qed

text \<open>
  Claim C8. Normalizing a name (lowercase, underscores removed) a second time changes
  nothing. A bare enum symbol resolves to the key that the parser gives the species of
  that symbol, whether the species is parsed already or still to come, and resolving that
  key again returns it. For \<open>AE_SKYSTONE\<close> the key is \<open>magicbees:aeskystone\<close> on both
  ways, its name part is the lang file's \<open>AESkystone\<close> in lowercase, and the display name
  keeps the two-letter segment: \<open>AE Skystone\<close>.
\<close>

theorem identifier_determinism:
  "remove_underscores (toLowerCase (remove_underscores (toLowerCase s))) =
     remove_underscores (toLowerCase s) \<and>
   (bare_symbol e \<and>
    list_all (\<lambda>ub. fst ub = species_uid (snd ub) \<and> list_all is_word (snd ub)) bees \<longrightarrow>
      resolveSpeciesReference e bees = species_uid e \<and>
      resolveSpeciesReference (resolveSpeciesReference e bees) bees =
        resolveSpeciesReference e bees) \<and>
   species_uid ''AE_SKYSTONE'' = ''magicbees:aeskystone'' \<and>
   resolveSpeciesReference ''AE_SKYSTONE'' [] = ''magicbees:aeskystone'' \<and>
   resolveSpeciesReference ''AE_SKYSTONE'' [(''magicbees:aeskystone'', ''AE_SKYSTONE'')]
     = ''magicbees:aeskystone'' \<and>
   bee_id ''magicbees:aeskystone'' = Some (lang_key ''AESkystone'') \<and>
   displayName ''AE_SKYSTONE'' = ''AE Skystone''"
proof (intro conjI impI)
  show "remove_underscores (toLowerCase (remove_underscores (toLowerCase s))) =
     remove_underscores (toLowerCase s)"
    by (rule normalize_idem)
next
  assume a: "bare_symbol e \<and>
    list_all (\<lambda>ub. fst ub = species_uid (snd ub) \<and> list_all is_word (snd ub)) bees"
  then have b: "bare_symbol e" "list_all (\<lambda>ub. fst ub = species_uid (snd ub)) bees"
    "list_all (\<lambda>ub. list_all is_word (snd ub)) bees"
    by (simp_all add: list_all_iff)
  show r: "resolveSpeciesReference e bees = species_uid e"
    using b(1,2) by (rule resolve_bare_symbol)
  show "resolveSpeciesReference (resolveSpeciesReference e bees) bees =
        resolveSpeciesReference e bees"
    unfolding r using b(1,3) by (rule resolve_key)
next
  show "species_uid ''AE_SKYSTONE'' = ''magicbees:aeskystone''"
    by (simp add: name_defs)
  show "resolveSpeciesReference ''AE_SKYSTONE'' [] = ''magicbees:aeskystone''"
    by (simp add: name_defs)
  show "resolveSpeciesReference ''AE_SKYSTONE'' [(''magicbees:aeskystone'', ''AE_SKYSTONE'')]
     = ''magicbees:aeskystone''"
    by (simp add: name_defs)
  show "bee_id ''magicbees:aeskystone'' = Some (lang_key ''AESkystone'')"
    by (simp add: name_defs)
  show "displayName ''AE_SKYSTONE'' = ''AE Skystone''"
    by (simp add: name_defs)
qed

theorem identifier_determinism_witness:
  "bare_symbol ''TE_BLIZZY'' \<and>
   resolveSpeciesReference ''TE_BLIZZY'' [(''magicbees:aeskystone'', ''AE_SKYSTONE'')]
     = ''magicbees:teblizzy'' \<and>
   species_uid ''TE_BLIZZY'' = ''magicbees:teblizzy'' \<and>
   resolveSpeciesReference ''magicbees:teblizzy'' [(''magicbees:aeskystone'', ''AE_SKYSTONE'')]
     = ''magicbees:teblizzy''"
proof -
  have b: "bare_symbol ''TE_BLIZZY''"
    by (simp add: bare_symbol_def is_upper_def)
  have u: "species_uid ''TE_BLIZZY'' = ''magicbees:teblizzy''"
    by (simp add: name_defs)
  have w: "list_all is_word ''AE_SKYSTONE''"
    by (simp add: is_word_def)
  have k: "species_uid ''AE_SKYSTONE'' = ''magicbees:aeskystone''"
    by (simp add: name_defs)
  have l: "list_all (\<lambda>ub. fst ub = species_uid (snd ub) \<and> list_all is_word (snd ub))
             [(''magicbees:aeskystone'', ''AE_SKYSTONE'')]"
    using w k by simp
  have "resolveSpeciesReference ''TE_BLIZZY'' [(''magicbees:aeskystone'', ''AE_SKYSTONE'')]
          = species_uid ''TE_BLIZZY'' \<and>
        resolveSpeciesReference
          (resolveSpeciesReference ''TE_BLIZZY'' [(''magicbees:aeskystone'', ''AE_SKYSTONE'')])
          [(''magicbees:aeskystone'', ''AE_SKYSTONE'')]
          = resolveSpeciesReference ''TE_BLIZZY'' [(''magicbees:aeskystone'', ''AE_SKYSTONE'')]"
    using identifier_determinism[of "''TE_BLIZZY''" "''TE_BLIZZY''"
            "[(''magicbees:aeskystone'', ''AE_SKYSTONE'')]"] b l
    by blast
  then show ?thesis using b u by (auto simp del: list.simps)
qed


end
